theory Spec2Isabelle
  imports
    Complex_Main
    "HOL-Library.Sublist"
    "HOL-Library.Multiset"
    "HOL-Library.Char_ord"
    "HOL-Library.List_Lexorder"
begin

section \<open>The ledger of controlfin: records, derived views and mutations\<close>

text \<open>
  The development embeds the transaction ledger of \<^verbatim>\<open>src/App.tsx\<close> and \<^verbatim>\<open>src/types.ts\<close>.
  Conventions of the embedding:
  \<^item> a TypeScript interface is a record, an optional field \<^verbatim>\<open>f?: string\<close> is a
    \<open>string option\<close> (\<open>None\<close> is \<^verbatim>\<open>undefined\<close>);
  \<^item> \<^verbatim>\<open>amount: number\<close> is a rational number: sums are exact, and the floating-point
    values \<^verbatim>\<open>NaN\<close> and the infinities are not represented;
  \<^item> React state is passed explicitly: a handler takes the state it reads and returns the
    state it sets;
  \<^item> what the runtime supplies (\<^verbatim>\<open>Date.now()\<close>, the parsing of date strings) is a parameter.
\<close>

subsection \<open>Record model (types.ts)\<close>

datatype TransactionType = INCOME | EXPENSE

record Transaction =
  id_t :: string
  description :: string
  amount :: rat
  date :: string
  type_t :: TransactionType
  category :: string
  parentId :: "string option"
  notes_t :: "string option"

record Category =
  id_c :: string
  name :: string
  icon :: "string option"

record UserData =
  transactions :: "Transaction list"
  categories :: "Category list"

text \<open>JavaScript truthiness of an optional string: \<^verbatim>\<open>undefined\<close> and \<^verbatim>\<open>''\<close> are falsy.\<close>

definition truthy :: "string option \<Rightarrow> bool" where
  "truthy v = (case v of None \<Rightarrow> False | Some s \<Rightarrow> s \<noteq> [])"

subsection \<open>Month filter and available months (App.tsx 400-405, 1698-1704)\<close>

definition startsWith :: "string \<Rightarrow> string \<Rightarrow> bool" where
  "startsWith s p = prefix p s"

definition filteredTransactions :: "string \<Rightarrow> Transaction list \<Rightarrow> Transaction list" where
  "filteredTransactions selectedMonth ts =
     (if selectedMonth = ''all'' then ts
      else filter (\<lambda>t. startsWith (date t) selectedMonth) ts)"

text \<open>\<^verbatim>\<open>months.add(m)\<close> on a \<^verbatim>\<open>Set\<close>, which keeps insertion order and ignores repeats.\<close>

definition months_add :: "string list \<Rightarrow> string \<Rightarrow> string list" where
  "months_add months m = (if m \<in> set months then months else months @ [m])"

definition availableMonths :: "Transaction list \<Rightarrow> string list" where
  "availableMonths ts =
     rev (sort (foldl (\<lambda>months t. months_add months (take 7 (date t))) [] ts))"

subsection \<open>Period totals of the dashboard (App.tsx 407-409)\<close>

definition totalIncome :: "Transaction list \<Rightarrow> rat" where
  "totalIncome ts =
     foldl (\<lambda>sum t. sum + amount t) 0
       (filter (\<lambda>t. type_t t = INCOME \<and> \<not> truthy (parentId t)) ts)"

definition totalExpense :: "Transaction list \<Rightarrow> rat" where
  "totalExpense ts =
     foldl (\<lambda>sum t. sum + amount t) 0
       (filter (\<lambda>t. type_t t = EXPENSE \<and> \<not> truthy (parentId t)) ts)"

definition balance :: "Transaction list \<Rightarrow> rat" where
  "balance ts = totalIncome ts - totalExpense ts"

text \<open>
  The totals as the specification words them: the sum of the amounts of the records of
  one type whose \<open>parentId\<close> is absent.
\<close>

definition spec_total :: "TransactionType \<Rightarrow> Transaction list \<Rightarrow> rat" where
  "spec_total ty ts =
     sum_list (map amount (filter (\<lambda>t. parentId t = None \<and> type_t t = ty) ts))"

subsection \<open>Category deletion (App.tsx 1609-1629) and the merge on load (1403-1417)\<close>

datatype delete_outcome = NotFound | CategoryInUse | Deleted

text \<open>
  \<^verbatim>\<open>userData.transactions.some(t => t.category === name || t.subItems?.some(...))\<close>.
  The records of \<^verbatim>\<open>userData.transactions\<close> are the flat ones: no handler ever stores a
  \<^verbatim>\<open>subItems\<close> field on them, so the second disjunct is \<^verbatim>\<open>undefined\<close> there.
\<close>

definition isInUse :: "Transaction list \<Rightarrow> string \<Rightarrow> bool" where
  "isInUse ts nm = list_ex (\<lambda>t. category t = nm \<or> False) ts"

text \<open>
  The request either returns silently (no category with that id), alerts that the
  category is in use, or stores the id as \<^verbatim>\<open>itemToDelete\<close> for the confirmation dialog.
\<close>

definition handleDeleteCategoryRequest :: "string \<Rightarrow> UserData \<Rightarrow> delete_outcome + string" where
  "handleDeleteCategoryRequest categoryId ud =
     (case find (\<lambda>c. id_c c = categoryId) (categories ud) of
        None \<Rightarrow> Inl NotFound
      | Some categoryToDelete \<Rightarrow>
          if isInUse (transactions ud) (name categoryToDelete) then Inl CategoryInUse
          else Inr categoryId)"

definition confirmDeleteCategory :: "string \<Rightarrow> UserData \<Rightarrow> UserData" where
  "confirmDeleteCategory categoryId ud =
     ud\<lparr>categories := filter (\<lambda>c. id_c c \<noteq> categoryId) (categories ud)\<rparr>"

text \<open>The request followed by the user's confirmation.\<close>

definition deleteCategory :: "string \<Rightarrow> UserData \<Rightarrow> delete_outcome \<times> UserData" where
  "deleteCategory categoryId ud =
     (case handleDeleteCategoryRequest categoryId ud of
        Inl e \<Rightarrow> (e, ud)
      | Inr itemToDelete \<Rightarrow> (Deleted, confirmDeleteCategory itemToDelete ud))"

definition INITIAL_CATEGORIES :: "Category list" where
  "INITIAL_CATEGORIES =
     [\<lparr>id_c = ''cat1'', name = ''Supermercado'', icon = Some ''shopping_cart''\<rparr>,
      \<lparr>id_c = ''cat2'', name = ''Contas de Casa'', icon = Some ''home''\<rparr>,
      \<lparr>id_c = ''cat3'', name = ''Aluguel'', icon = Some ''key''\<rparr>,
      \<lparr>id_c = ''cat4'', name = ''Sal'' @ [CHR 0xC3, CHR 0xA1] @ ''rio'', icon = Some ''currency_dollar''\<rparr>,
      \<lparr>id_c = ''cat5'', name = ''Lazer'', icon = Some ''puzzle_piece''\<rparr>]"

definition withIcon :: "Category \<Rightarrow> Category" where
  "withIcon c =
     c\<lparr>icon := (case icon c of
                  Some i \<Rightarrow> Some i
                | None \<Rightarrow>
                    (case find (\<lambda>ic. name ic = name c) INITIAL_CATEGORIES of
                       Some ic \<Rightarrow> (case icon ic of Some i \<Rightarrow> Some i
                                   | None \<Rightarrow> Some ''question_mark_circle'')
                     | None \<Rightarrow> Some ''question_mark_circle''))\<rparr>"

text \<open>
  Loading a saved ledger: every initial category whose \<^emph>\<open>name\<close> is missing from the saved
  categories is pushed back, with its initial id.
\<close>

definition mergedCategories :: "Category list \<Rightarrow> Category list" where
  "mergedCategories saved =
     foldl (\<lambda>merged initialCat.
              if list_ex (\<lambda>userCat. name userCat = name initialCat) merged then merged
              else merged @ [initialCat])
       (map withIcon saved) INITIAL_CATEGORIES"

text \<open>
  Renaming a category in the settings page (\<^verbatim>\<open>handleUpdateCategory\<close>), refused for a name
  that is blank. \<^verbatim>\<open>String.prototype.trim\<close> strips the white space and the line
  terminators of ECMAScript from both ends: TAB, LF, VT, FF, CR, the space, U+00A0,
  U+1680, U+2000 to U+200A, U+2028, U+2029, U+202F, U+205F, U+3000 and U+FEFF. Strings
  are sequences of UTF-8 bytes here, so \<open>whiteSpace\<close> lists the encodings of these
  characters and \<open>stripLeading\<close> removes them from the front one character at a time.
\<close>

definition whiteSpace :: "string list" where
  "whiteSpace =
     [[CHR 0x09], [CHR 0x0A], [CHR 0x0B], [CHR 0x0C], [CHR 0x0D], [CHR 0x20],
      [CHR 0xC2, CHR 0xA0],
      [CHR 0xE1, CHR 0x9A, CHR 0x80],
      [CHR 0xE2, CHR 0x80, CHR 0x80], [CHR 0xE2, CHR 0x80, CHR 0x81],
      [CHR 0xE2, CHR 0x80, CHR 0x82], [CHR 0xE2, CHR 0x80, CHR 0x83],
      [CHR 0xE2, CHR 0x80, CHR 0x84], [CHR 0xE2, CHR 0x80, CHR 0x85],
      [CHR 0xE2, CHR 0x80, CHR 0x86], [CHR 0xE2, CHR 0x80, CHR 0x87],
      [CHR 0xE2, CHR 0x80, CHR 0x88], [CHR 0xE2, CHR 0x80, CHR 0x89],
      [CHR 0xE2, CHR 0x80, CHR 0x8A],
      [CHR 0xE2, CHR 0x80, CHR 0xA8], [CHR 0xE2, CHR 0x80, CHR 0xA9],
      [CHR 0xE2, CHR 0x80, CHR 0xAF],
      [CHR 0xE2, CHR 0x81, CHR 0x9F],
      [CHR 0xE3, CHR 0x80, CHR 0x80],
      [CHR 0xEF, CHR 0xBB, CHR 0xBF]]"

function stripLeading :: "string list \<Rightarrow> string \<Rightarrow> string" where
  "stripLeading ws s =
     (case find (\<lambda>w. w \<noteq> [] \<and> prefix w s) ws of
        None \<Rightarrow> s
      | Some w \<Rightarrow> stripLeading ws (drop (length w) s))"
  by pat_completeness auto
termination
proof (relation "measure (\<lambda>(ws, s). length s)")
  show "wf (measure (\<lambda>(ws, s). length s))" by simp
next
  fix ws :: "string list" and s w :: string
  assume "find (\<lambda>w. w \<noteq> [] \<and> prefix w s) ws = Some w"
  then have "w \<noteq> []" "prefix w s" by (auto simp: find_Some_iff)
  then show "((ws, drop (length w) s), (ws, s)) \<in> measure (\<lambda>(ws, s). length s)"
    by (auto simp: prefix_def)
qed

declare stripLeading.simps [simp del]

definition trim :: "string \<Rightarrow> string" where
  "trim s = rev (stripLeading (map rev whiteSpace) (rev (stripLeading whiteSpace s)))"

definition handleUpdateCategory :: "Category \<Rightarrow> Category list \<Rightarrow> Category list" where
  "handleUpdateCategory categoryToUpdate cats =
     (if trim (name categoryToUpdate) \<noteq> [] then
        map (\<lambda>c. if id_c c = id_c categoryToUpdate then categoryToUpdate else c) cats
      else cats)"

subsection \<open>The transaction form (App.tsx 290-333)\<close>

text \<open>
  The amount state of the form is \<^verbatim>\<open>number | ''\<close>. \<open>amount_input\<close> and \<open>form\<close> are the
  states whose amount is the untouched \<^verbatim>\<open>''\<close> (\<open>Blank\<close>) or a finite number (\<open>Num\<close>), the
  ones from which a record of the ledger is saved; the \<^verbatim>\<open>NaN\<close> that the field holds once it
  is cleared is part of \<open>amount_state\<close> and \<open>modal_state\<close> below, which cover every state.
\<close>

datatype amount_input = Blank | Num rat

record form =
  f_description :: string
  f_amount :: amount_input
  f_date :: string
  f_type :: TransactionType
  f_category :: string
  f_notes :: string

text \<open>
  \<^verbatim>\<open>Omit<Transaction, 'id' | 'subItems'>\<close>, as the object literal of \<^verbatim>\<open>handleSubmit\<close> builds
  it: all seven keys are present, two of them possibly \<^verbatim>\<open>undefined\<close>.
\<close>

record txdata =
  d_description :: string
  d_amount :: rat
  d_date :: string
  d_type :: TransactionType
  d_category :: string
  d_parentId :: "string option"
  d_notes :: "string option"

text \<open>
  A node of the display tree: the copy \<^verbatim>\<open>{ ...t, subItems: [] }\<close> of a record. Nodes live
  in a store (a list indexed by allocation order) and refer to each other by index,
  since the builder pushes shared objects into each other's arrays.
\<close>

record tnode =
  tx :: Transaction
  subItems :: "nat list"

datatype js_error = TypeError | RangeError

text \<open>
  \<^verbatim>\<open>handleSubmit\<close>: \<open>Inr None\<close> when the guard fails and \<^verbatim>\<open>onSave\<close> is not called,
  \<open>Inl RangeError\<close> when \<^verbatim>\<open>new Date(date).toISOString()\<close> throws on an invalid date
  (\<open>toISOString\<close> is the runtime's parser, \<open>None\<close> for an invalid date), and otherwise the
  object handed to \<^verbatim>\<open>onSave\<close>.
\<close>

definition handleSubmit ::
  "(string \<Rightarrow> string option) \<Rightarrow> tnode option \<Rightarrow> string option \<Rightarrow> form \<Rightarrow> js_error + txdata option"
where
  "handleSubmit toISOString editingTransaction parentIdProp f =
     (let editingParent = (case editingTransaction of None \<Rightarrow> None | Some e \<Rightarrow> parentId (tx e));
          isSubItem = (truthy parentIdProp \<or> truthy editingParent)
      in case f_amount f of
           Blank \<Rightarrow> Inr None
         | Num a \<Rightarrow>
             if f_description f \<noteq> [] \<and> f_date f \<noteq> [] \<and> f_category f \<noteq> [] then
               (case toISOString (f_date f) of
                  None \<Rightarrow> Inl RangeError
                | Some isoDate \<Rightarrow>
                    Inr (Some
                      \<lparr>d_description = f_description f,
                       d_amount = (case editingTransaction of
                                     None \<Rightarrow> a
                                   | Some e \<Rightarrow> if subItems e \<noteq> [] then amount (tx e) else a),
                       d_date = isoDate,
                       d_type = f_type f,
                       d_category = f_category f,
                       d_parentId = (if truthy editingParent then editingParent else parentIdProp),
                       d_notes = (if isSubItem then Some (f_notes f) else None)\<rparr>))
             else Inr None)"

subsection \<open>Mutation engine (App.tsx 1546-1607)\<close>

text \<open>The decimal digits of \<^verbatim>\<open>Date.now()\<close>, for the template \<^verbatim>\<open>`trans${Date.now()}`\<close>.\<close>

fun dec :: "nat \<Rightarrow> string" where
  "dec n =
     (if n < 10 then [''0123456789'' ! n]
      else dec (n div 10) @ [''0123456789'' ! (n mod 10)])"

declare dec.simps [simp del]

definition newId :: "nat \<Rightarrow> string" where
  "newId now = ''trans'' @ dec now"

text \<open>\<^verbatim>\<open>{ ...t, ...transactionData }\<close>: the seven keys of the data override those of \<open>t\<close>.\<close>

definition spread :: "Transaction \<Rightarrow> txdata \<Rightarrow> Transaction" where
  "spread t d =
     t\<lparr>description := d_description d, amount := d_amount d, date := d_date d,
       type_t := d_type d, category := d_category d, parentId := d_parentId d,
       notes_t := d_notes d\<rparr>"

definition newTransaction :: "txdata \<Rightarrow> nat \<Rightarrow> Transaction" where
  "newTransaction d now =
     \<lparr>id_t = newId now, description = d_description d, amount = d_amount d, date = d_date d,
      type_t = d_type d, category = d_category d, parentId = d_parentId d, notes_t = d_notes d\<rparr>"

text \<open>\<^verbatim>\<open>.reduce((sum, item) => sum + item.amount, 0)\<close>\<close>

definition sumAmounts :: "Transaction list \<Rightarrow> rat" where
  "sumAmounts xs = foldl (\<lambda>sum item. sum + amount item) 0 xs"

text \<open>The re-derivation shared by save and delete: filter the children, sum, write back.\<close>

definition rederive :: "string \<Rightarrow> Transaction list \<Rightarrow> Transaction list" where
  "rederive p updatedTransactions =
     (let newParentAmount = sumAmounts (filter (\<lambda>t. parentId t = Some p) updatedTransactions)
      in map (\<lambda>t. if id_t t = p then t\<lparr>amount := newParentAmount\<rparr> else t) updatedTransactions)"

definition handleSaveTransaction ::
  "tnode option \<Rightarrow> nat \<Rightarrow> txdata \<Rightarrow> Transaction list \<Rightarrow> Transaction list"
where
  "handleSaveTransaction editingTransaction now transactionData prev =
     (let parentIdToUpdate = d_parentId transactionData;
          updatedTransactions =
            (case editingTransaction of
               Some e \<Rightarrow>
                 map (\<lambda>t. if id_t t = id_t (tx e) then spread t transactionData else t) prev
             | None \<Rightarrow> prev @ [newTransaction transactionData now])
      in case parentIdToUpdate of
           None \<Rightarrow> updatedTransactions
         | Some p \<Rightarrow> if p = [] then updatedTransactions else rederive p updatedTransactions)"

definition confirmDeleteTransaction :: "string \<Rightarrow> Transaction list \<Rightarrow> Transaction list" where
  "confirmDeleteTransaction transactionId ts =
     (case find (\<lambda>t. id_t t = transactionId) ts of
        None \<Rightarrow> ts
      | Some transactionToDelete \<Rightarrow>
          (let childIds = map id_t (filter (\<lambda>t. parentId t = Some transactionId) ts);
               idsToDelete = transactionId # childIds;
               updatedTransactions = filter (\<lambda>t. id_t t \<notin> set idsToDelete) ts
           in case parentId transactionToDelete of
                None \<Rightarrow> updatedTransactions
              | Some p \<Rightarrow> if p = [] then updatedTransactions else rederive p updatedTransactions))"

text \<open>A submission of the form followed by the save it triggers, if any.\<close>

definition saveViaModal ::
  "(string \<Rightarrow> string option) \<Rightarrow> tnode option \<Rightarrow> string option \<Rightarrow> nat \<Rightarrow> form \<Rightarrow>
   Transaction list \<Rightarrow> Transaction list"
where
  "saveViaModal toISOString editingTransaction parentIdProp now f ts =
     (case handleSubmit toISOString editingTransaction parentIdProp f of
        Inr (Some d) \<Rightarrow> handleSaveTransaction editingTransaction now d ts
      | _ \<Rightarrow> ts)"

subsection \<open>The form in every amount state (App.tsx 291, 303, 309, 351)\<close>

text \<open>
  A JavaScript number as the amount field can hold it: finite, or the \<^verbatim>\<open>NaN\<close> that
  \<^verbatim>\<open>parseFloat\<close> returns for a cleared or non-numeric field. The state \<^verbatim>\<open>number | ''\<close> is
  \<open>Unset\<close> for \<^verbatim>\<open>''\<close> and \<open>Held n\<close> for a number.
\<close>

datatype number = NaN | Fin rat

datatype amount_state = Unset | Held number

text \<open>
  The amount when the form opens (\<^verbatim>\<open>setAmount(editingTransaction.amount)\<close> for an edit,
  \<^verbatim>\<open>setAmount('')\<close> for a new record) and after a change of the field
  (\<^verbatim>\<open>setAmount(parseFloat(e.target.value))\<close>, with the runtime's \<^verbatim>\<open>parseFloat\<close> a parameter).
\<close>

definition openAmount :: "tnode option \<Rightarrow> amount_state" where
  "openAmount editingTransaction =
     (case editingTransaction of None \<Rightarrow> Unset | Some e \<Rightarrow> Held (Fin (amount (tx e))))"

definition changeAmount :: "(string \<Rightarrow> number) \<Rightarrow> string \<Rightarrow> amount_state" where
  "changeAmount parseFloat v = Held (parseFloat v)"

record modal_state =
  m_description :: string
  m_amount :: amount_state
  m_date :: string
  m_type :: TransactionType
  m_category :: string
  m_notes :: string

text \<open>The object handed to \<^verbatim>\<open>onSave\<close>, with the amount any number.\<close>

record save_arg =
  a_description :: string
  a_amount :: number
  a_date :: string
  a_type :: TransactionType
  a_category :: string
  a_parentId :: "string option"
  a_notes :: "string option"

text \<open>
  \<^verbatim>\<open>handleSubmit\<close> on every state. The guard \<^verbatim>\<open>amount !== ''\<close> fails for \<open>Unset\<close> only:
  every number, \<^verbatim>\<open>NaN\<close> included, passes it, and \<^verbatim>\<open>+amount\<close> is that number.
\<close>

definition handleSubmit_state ::
  "(string \<Rightarrow> string option) \<Rightarrow> tnode option \<Rightarrow> string option \<Rightarrow> modal_state \<Rightarrow>
   js_error + save_arg option"
where
  "handleSubmit_state toISOString editingTransaction parentIdProp s =
     (let editingParent = (case editingTransaction of None \<Rightarrow> None | Some e \<Rightarrow> parentId (tx e));
          isSubItem = (truthy parentIdProp \<or> truthy editingParent)
      in case m_amount s of
           Unset \<Rightarrow> Inr None
         | Held n \<Rightarrow>
             if m_description s \<noteq> [] \<and> m_date s \<noteq> [] \<and> m_category s \<noteq> [] then
               (case toISOString (m_date s) of
                  None \<Rightarrow> Inl RangeError
                | Some isoDate \<Rightarrow>
                    Inr (Some
                      \<lparr>a_description = m_description s,
                       a_amount = (case editingTransaction of
                                     None \<Rightarrow> n
                                   | Some e \<Rightarrow> if subItems e \<noteq> [] then Fin (amount (tx e)) else n),
                       a_date = isoDate,
                       a_type = m_type s,
                       a_category = m_category s,
                       a_parentId = (if truthy editingParent then editingParent else parentIdProp),
                       a_notes = (if isSubItem then Some (m_notes s) else None)\<rparr>))
             else Inr None)"

text \<open>
  The record set after a submission. When \<^verbatim>\<open>onSave\<close> is not called the set is the one
  before; when it is called with a finite amount the set is that of
  \<open>handleSaveTransaction\<close>. A save with the amount \<^verbatim>\<open>NaN\<close> stores a record that the
  ledger of this development, whose amounts are rationals, does not represent: the
  result is \<open>None\<close> then.
\<close>

definition save_state ::
  "(string \<Rightarrow> string option) \<Rightarrow> tnode option \<Rightarrow> string option \<Rightarrow> nat \<Rightarrow> modal_state \<Rightarrow>
   Transaction list \<Rightarrow> Transaction list option"
where
  "save_state toISOString editingTransaction parentIdProp now s ts =
     (case handleSubmit_state toISOString editingTransaction parentIdProp s of
        Inl err \<Rightarrow> Some ts
      | Inr None \<Rightarrow> Some ts
      | Inr (Some v) \<Rightarrow>
          (case a_amount v of
             NaN \<Rightarrow> None
           | Fin a \<Rightarrow>
               Some (handleSaveTransaction editingTransaction now
                 \<lparr>d_description = a_description v, d_amount = a, d_date = a_date v,
                  d_type = a_type v, d_category = a_category v, d_parentId = a_parentId v,
                  d_notes = a_notes v\<rparr> ts)))"

text \<open>The states with a finite amount, as states of the full form.\<close>

definition of_form :: "form \<Rightarrow> modal_state" where
  "of_form f =
     \<lparr>m_description = f_description f,
      m_amount = (case f_amount f of Blank \<Rightarrow> Unset | Num a \<Rightarrow> Held (Fin a)),
      m_date = f_date f, m_type = f_type f, m_category = f_category f, m_notes = f_notes f\<rparr>"

definition of_txdata :: "txdata \<Rightarrow> save_arg" where
  "of_txdata d =
     \<lparr>a_description = d_description d, a_amount = Fin (d_amount d), a_date = d_date d,
      a_type = d_type d, a_category = d_category d, a_parentId = d_parentId d,
      a_notes = d_notes d\<rparr>"

subsection \<open>Tree builder (App.tsx 1672-1688)\<close>

text \<open>
  \<^verbatim>\<open>transactionMap\<close> is a plain object used as a dictionary. Reading a key yields the node
  stored under it, or else whatever the prototype chain holds for that name, or
  \<^verbatim>\<open>undefined\<close>. A value that is not a node is represented by its truthiness alone, which
  is all the builder looks at; its \<^verbatim>\<open>subItems\<close> property is \<^verbatim>\<open>undefined\<close>.
\<close>

datatype jsval = Undefined | NodeRef nat | Other bool

definition js_truthy :: "jsval \<Rightarrow> bool" where
  "js_truthy v = (case v of Undefined \<Rightarrow> False | NodeRef r \<Rightarrow> True | Other b \<Rightarrow> b)"

text \<open>
  The object has its own properties (the latest assignment to a key first) and a
  prototype: \<open>None\<close> is \<^verbatim>\<open>Object.prototype\<close>; assigning a node to the key
  \<^verbatim>\<open>__proto__\<close> replaces the prototype by that node instead of creating a property.
\<close>

record tmap =
  own :: "(string \<times> nat) list"
  proto :: "nat option"

definition objectPrototypeKeys :: "string list" where
  "objectPrototypeKeys =
     [''constructor'', ''hasOwnProperty'', ''isPrototypeOf'', ''propertyIsEnumerable'',
      ''toLocaleString'', ''toString'', ''valueOf'', ''__defineGetter__'',
      ''__defineSetter__'', ''__lookupGetter__'', ''__lookupSetter__'']"

text \<open>The own properties of a node \<^verbatim>\<open>{ ...t, subItems: [] }\<close>, seen as values.\<close>

definition nodeProperty :: "Transaction \<Rightarrow> string \<Rightarrow> jsval option" where
  "nodeProperty t k =
     (if k = ''id'' then Some (Other (id_t t \<noteq> []))
      else if k = ''description'' then Some (Other (description t \<noteq> []))
      else if k = ''amount'' then Some (Other (amount t \<noteq> 0))
      else if k = ''date'' then Some (Other (date t \<noteq> []))
      else if k = ''type'' then Some (Other True)
      else if k = ''category'' then Some (Other (category t \<noteq> []))
      else if k = ''parentId'' then
        Some (case parentId t of None \<Rightarrow> Undefined | Some p \<Rightarrow> Other (p \<noteq> []))
      else if k = ''notes'' then
        Some (case notes_t t of None \<Rightarrow> Undefined | Some n \<Rightarrow> Other (n \<noteq> []))
      else if k = ''subItems'' then Some (Other True)
      else None)"

definition tm_set :: "string \<Rightarrow> nat \<Rightarrow> tmap \<Rightarrow> tmap" where
  "tm_set k r m = (if k = ''__proto__'' then m\<lparr>proto := Some r\<rparr> else m\<lparr>own := (k, r) # own m\<rparr>)"

definition tm_get :: "tnode list \<Rightarrow> tmap \<Rightarrow> string \<Rightarrow> jsval" where
  "tm_get h m k =
     (if k = ''__proto__'' then (case proto m of Some r \<Rightarrow> NodeRef r | None \<Rightarrow> Other True)
      else
        (case map_of (own m) k of
           Some r \<Rightarrow> NodeRef r
         | None \<Rightarrow>
             (case (case proto m of Some r \<Rightarrow> nodeProperty (tx (h ! r)) k | None \<Rightarrow> None) of
                Some v \<Rightarrow> v
              | None \<Rightarrow> if k \<in> set objectPrototypeKeys then Other True else Undefined)))"

text \<open>First loop: \<^verbatim>\<open>transactionMap[t.id] = { ...t, subItems: [] }\<close>, one new node per record.\<close>

fun indexRecords :: "Transaction list \<Rightarrow> tnode list \<Rightarrow> tmap \<Rightarrow> tnode list \<times> tmap" where
  "indexRecords [] h m = (h, m)"
| "indexRecords (t # ts) h m =
     indexRecords ts (h @ [\<lparr>tx = t, subItems = []\<rparr>]) (tm_set (id_t t) (length h) m)"

text \<open>
  Second loop. A record whose \<open>parentId\<close> is truthy and reads a truthy value from the map
  is pushed into that value's \<^verbatim>\<open>subItems\<close>; when the value is not a node, \<^verbatim>\<open>subItems\<close> is
  \<^verbatim>\<open>undefined\<close> and the push throws. Every other record is pushed to the roots. The read
  \<^verbatim>\<open>transactionMap[t.id]\<close> always yields a node, the first loop having bound every id
  (lemma \<open>indexRecords_binds\<close>); the model gives the impossible case the same error.
\<close>

fun attachAll ::
  "tmap \<Rightarrow> Transaction list \<Rightarrow> tnode list \<Rightarrow> nat list \<Rightarrow> js_error + (tnode list \<times> nat list)"
where
  "attachAll m [] h roots = Inr (h, roots)"
| "attachAll m (t # ts) h roots =
     (case tm_get h m (id_t t) of
        NodeRef c \<Rightarrow>
          (case parentId t of
             None \<Rightarrow> attachAll m ts h (roots @ [c])
           | Some p \<Rightarrow>
               if p = [] then attachAll m ts h (roots @ [c])
               else
                 (case tm_get h m p of
                    NodeRef q \<Rightarrow>
                      attachAll m ts (h[q := (h ! q)\<lparr>subItems := subItems (h ! q) @ [c]\<rparr>]) roots
                  | Other b \<Rightarrow> if b then Inl TypeError else attachAll m ts h (roots @ [c])
                  | Undefined \<Rightarrow> attachAll m ts h (roots @ [c])))
      | Undefined \<Rightarrow> Inl TypeError
      | Other b \<Rightarrow> Inl TypeError)"

text \<open>
  \<^verbatim>\<open>sortByDate\<close> orders by \<^verbatim>\<open>new Date(b.date).getTime() - new Date(a.date).getTime()\<close>: most
  recent first, equal instants keeping their order (\<^verbatim>\<open>Array.prototype.sort\<close> is stable).
  \<open>getTime\<close> is the runtime's reading of a date string; an unparseable date (\<^verbatim>\<open>NaN\<close>) has
  no counterpart here.
\<close>

definition sortByDate :: "(string \<Rightarrow> int) \<Rightarrow> tnode list \<Rightarrow> nat list \<Rightarrow> nat list" where
  "sortByDate getTime h refs = sort_key (\<lambda>r. - getTime (date (tx (h ! r)))) refs"

fun sortSubItems :: "(string \<Rightarrow> int) \<Rightarrow> nat list \<Rightarrow> tnode list \<Rightarrow> tnode list" where
  "sortSubItems getTime [] h = h"
| "sortSubItems getTime (r # rs) h =
     sortSubItems getTime rs
       (h[r := (h ! r)\<lparr>subItems := sortByDate getTime h (subItems (h ! r))\<rparr>])"

text \<open>The builder returns the store of nodes and the sorted sequence of roots.\<close>

definition transactionsWithSubItems ::
  "(string \<Rightarrow> int) \<Rightarrow> Transaction list \<Rightarrow> js_error + (tnode list \<times> nat list)"
where
  "transactionsWithSubItems getTime ts =
     (case indexRecords ts [] \<lparr>own = [], proto = None\<rparr> of
        (h, transactionMap) \<Rightarrow>
          (case attachAll transactionMap ts h [] of
             Inl e \<Rightarrow> Inl e
           | Inr (h', rootTransactions) \<Rightarrow>
               (let sorted = sortByDate getTime h' rootTransactions
                in Inr (sortSubItems getTime sorted h', sorted))))"

text \<open>The records the pages can show: the roots, each followed by its sub-items.\<close>

definition displayed :: "tnode list \<times> nat list \<Rightarrow> nat list" where
  "displayed out = concat (map (\<lambda>r. r # subItems (fst out ! r)) (snd out))"

subsection \<open>Invariants of the record set (specification, section 3)\<close>

definition children :: "Transaction list \<Rightarrow> string \<Rightarrow> Transaction list" where
  "children ts pid = filter (\<lambda>t. parentId t = Some pid) ts"

text \<open>I1: a record with at least one sub-item carries the sum of its sub-items.\<close>

definition parentSum :: "Transaction list \<Rightarrow> bool" where
  "parentSum ts =
     (\<forall>p \<in> set ts. children ts (id_t p) \<noteq> [] \<longrightarrow>
        amount p = sum_list (map amount (children ts (id_t p))))"

text \<open>I2: a record that is referenced as a parent has no parent itself.\<close>

definition depth2 :: "Transaction list \<Rightarrow> bool" where
  "depth2 ts = (\<forall>c \<in> set ts. \<forall>p \<in> set ts. parentId c = Some (id_t p) \<longrightarrow> parentId p = None)"

text \<open>Identifiers are unique; the generated ones are never empty.\<close>

definition uniqueIds :: "Transaction list \<Rightarrow> bool" where
  "uniqueIds ts = (distinct (map id_t ts) \<and> [] \<notin> set (map id_t ts))"

definition validLedger :: "Transaction list \<Rightarrow> bool" where
  "validLedger ts = (uniqueIds ts \<and> parentSum ts \<and> depth2 ts)"

text \<open>An identifier is fresh when no record carries it and no record refers to it.\<close>

definition fresh :: "string \<Rightarrow> Transaction list \<Rightarrow> bool" where
  "fresh i ts = (i \<notin> set (map id_t ts) \<and> (\<forall>t \<in> set ts. parentId t \<noteq> Some i))"

subsection \<open>Operations as the pages issue them\<close>

text \<open>
  \<open>Create p now f\<close>: the form \<open>f\<close> submitted for a new record, opened with parent \<open>p\<close>
  (\<^verbatim>\<open>onAddTransaction(parentId)\<close>), saved at clock value \<open>now\<close>.
  \<open>Update e now f\<close>: the form submitted while editing the node \<open>e\<close>
  (\<^verbatim>\<open>onEditTransaction(t)\<close>, which passes no parent).
  \<open>Delete i\<close>: the confirmed deletion of the record \<open>i\<close>.
\<close>

datatype op = Create "string option" nat form | Update tnode nat form | Delete string

fun applyOp :: "(string \<Rightarrow> string option) \<Rightarrow> Transaction list \<Rightarrow> op \<Rightarrow> Transaction list" where
  "applyOp toISOString ts (Create p now f) = saveViaModal toISOString None p now f ts"
| "applyOp toISOString ts (Update e now f) = saveViaModal toISOString (Some e) None now f ts"
| "applyOp toISOString ts (Delete i) = confirmDeleteTransaction i ts"

text \<open>
  What the transactions page offers: a sub-item can be added to a record without parent
  only, the node being edited is a node of the tree built from the current records, and
  the identifier generated for a new record is fresh.
\<close>

fun offered :: "(string \<Rightarrow> int) \<Rightarrow> Transaction list \<Rightarrow> op \<Rightarrow> bool" where
  "offered getTime ts (Create p now f) =
     (fresh (newId now) ts \<and>
      (case p of None \<Rightarrow> True
       | Some pid \<Rightarrow> list_ex (\<lambda>r. id_t r = pid \<and> parentId r = None) ts))"
| "offered getTime ts (Update e now f) =
     (case transactionsWithSubItems getTime ts of
        Inl err \<Rightarrow> False
      | Inr (h, roots) \<Rightarrow> e \<in> set h)"
| "offered getTime ts (Delete i) = True"

text \<open>The states after each operation of a sequence, and whether each was offered.\<close>

fun run :: "(string \<Rightarrow> string option) \<Rightarrow> Transaction list \<Rightarrow> op list \<Rightarrow> Transaction list list" where
  "run toISOString ts [] = []"
| "run toISOString ts (x # xs) =
     applyOp toISOString ts x # run toISOString (applyOp toISOString ts x) xs"

fun allOffered ::
  "(string \<Rightarrow> int) \<Rightarrow> (string \<Rightarrow> string option) \<Rightarrow> Transaction list \<Rightarrow> op list \<Rightarrow> bool"
where
  "allOffered getTime toISOString ts [] = True"
| "allOffered getTime toISOString ts (x # xs) =
     (offered getTime ts x \<and> allOffered getTime toISOString (applyOp toISOString ts x) xs)"

subsection \<open>The builder in closed form\<close>

text \<open>
  Auxiliary notions for stating what the builder computes: the value the finished map
  holds for a key, the node a record is copied to, and the node it is attached to.
\<close>

definition resolve :: "Transaction list \<Rightarrow> string \<Rightarrow> jsval" where
  "resolve ts k = (case indexRecords ts [] \<lparr>own = [], proto = None\<rparr> of (h, m) \<Rightarrow> tm_get h m k)"

definition selfRef :: "(string \<Rightarrow> jsval) \<Rightarrow> Transaction \<Rightarrow> nat" where
  "selfRef look t = (case look (id_t t) of NodeRef c \<Rightarrow> c | _ \<Rightarrow> 0)"

definition attachTarget :: "(string \<Rightarrow> jsval) \<Rightarrow> Transaction \<Rightarrow> nat option" where
  "attachTarget look t =
     (case parentId t of
        None \<Rightarrow> None
      | Some p \<Rightarrow> if p = [] then None
                  else (case look p of NodeRef q \<Rightarrow> Some q | _ \<Rightarrow> None))"

definition builtMap :: "Transaction list \<Rightarrow> tmap" where
  "builtMap ts = snd (indexRecords ts [] \<lparr>own = [], proto = None\<rparr>)"

definition freshNodes :: "Transaction list \<Rightarrow> tnode list" where
  "freshNodes ts = map (\<lambda>t. \<lparr>tx = t, subItems = []\<rparr>) ts"

definition inheritedName :: "string \<Rightarrow> bool" where
  "inheritedName k = (k = ''__proto__'' \<or> k \<in> set objectPrototypeKeys)"

definition plainNames :: "Transaction list \<Rightarrow> bool" where
  "plainNames ts =
     (''__proto__'' \<notin> set (map id_t ts) \<and>
      (\<forall>t \<in> set ts. case parentId t of
                        None \<Rightarrow> True
                      | Some p \<Rightarrow> p \<in> set (map id_t ts) \<or> \<not> inheritedName p))"

subsection \<open>Example ledgers\<close>

text \<open>
  Concrete records, forms and runtime functions on which the theorems below are
  instantiated. \<open>ledger_example\<close> is the scenario of the specification (section 8): an
  income of 1000 and an expense parent with sub-items of 30 and 45.
\<close>

definition mk :: "string \<Rightarrow> rat \<Rightarrow> string \<Rightarrow> TransactionType \<Rightarrow> string \<Rightarrow> string option \<Rightarrow> Transaction" where
  "mk i a d ty c p =
     \<lparr>id_t = i, description = ''item'', amount = a, date = d, type_t = ty, category = c,
      parentId = p, notes_t = None\<rparr>"

definition ledger_example :: "Transaction list" where
  "ledger_example =
     [mk ''trans1'' 1000 ''2024-01-05T00:00:00.000Z'' INCOME ''Salary'' None,
      mk ''trans2'' 75 ''2024-01-10T00:00:00.000Z'' EXPENSE ''Groceries'' None,
      mk ''trans3'' 30 ''2024-01-11T00:00:00.000Z'' EXPENSE ''Groceries'' (Some ''trans2''),
      mk ''trans4'' 45 ''2024-02-02T00:00:00.000Z'' EXPENSE ''Groceries'' (Some ''trans2'')]"

text \<open>The initial categories after renaming \<^verbatim>\<open>cat1\<close>, and the ledger loaded again from them.\<close>

definition renamed_categories :: "Category list" where
  "renamed_categories =
     handleUpdateCategory \<lparr>id_c = ''cat1'', name = ''Mercado'', icon = Some ''shopping_cart''\<rparr>
       INITIAL_CATEGORIES"

definition reloaded :: UserData where
  "reloaded =
     \<lparr>transactions = [mk ''trans1'' 50 ''2024-01-05T00:00:00.000Z'' EXPENSE ''Supermercado'' None],
      categories = mergedCategories renamed_categories\<rparr>"

definition supermercado :: Category where
  "supermercado = \<lparr>id_c = ''cat1'', name = ''Supermercado'', icon = Some ''shopping_cart''\<rparr>"

text \<open>Orphans, forms, and the runtime's date functions restricted to the dates used here.\<close>

definition orphan_ledger :: "Transaction list" where
  "orphan_ledger =
     [mk ''trans1'' 7 ''2024-01-05T00:00:00.000Z'' EXPENSE ''Lazer'' (Some ''trans1700000000000'')]"

definition sub_data :: "string \<Rightarrow> rat \<Rightarrow> txdata" where
  "sub_data p a =
     \<lparr>d_description = ''item'', d_amount = a, d_date = ''2024-01-06T00:00:00.000Z'',
      d_type = EXPENSE, d_category = ''Lazer'', d_parentId = Some p, d_notes = Some ''''\<rparr>"

definition toISO_example :: "string \<Rightarrow> string option" where
  "toISO_example d = (if d = ''2024-03-01'' then Some ''2024-03-01T00:00:00.000Z'' else None)"

definition form_example :: "string \<Rightarrow> amount_input \<Rightarrow> string \<Rightarrow> form" where
  "form_example ds a d =
     \<lparr>f_description = ds, f_amount = a, f_date = d, f_type = EXPENSE,
      f_category = ''Lazer'', f_notes = ''''\<rparr>"

definition state_example :: "string \<Rightarrow> amount_state \<Rightarrow> string \<Rightarrow> string \<Rightarrow> modal_state" where
  "state_example ds a d c =
     \<lparr>m_description = ds, m_amount = a, m_date = d, m_type = EXPENSE,
      m_category = c, m_notes = ''''\<rparr>"

definition parseFloat_example :: "string \<Rightarrow> number" where
  "parseFloat_example v = (if v = ''5'' then Fin 5 else if v = ''-5'' then Fin (- 5) else NaN)"

definition leaf_node :: tnode where
  "leaf_node =
     \<lparr>tx = mk ''trans1'' 1000 ''2024-01-05T00:00:00.000Z'' INCOME ''Salary'' None,
      subItems = []\<rparr>"

definition getTime_example :: "string \<Rightarrow> int" where
  "getTime_example d =
     (if d = ''2024-01-05T00:00:00.000Z'' then 1704412800000
      else if d = ''2024-01-10T00:00:00.000Z'' then 1704844800000
      else if d = ''2024-01-11T00:00:00.000Z'' then 1704931200000
      else if d = ''2024-02-02T00:00:00.000Z'' then 1706832000000
      else 0)"

definition orphan_family :: "Transaction list" where
  "orphan_family =
     [mk ''trans1'' 20 ''2024-01-05T00:00:00.000Z'' EXPENSE ''Lazer'' (Some ''trans9''),
      mk ''trans2'' 20 ''2024-01-10T00:00:00.000Z'' EXPENSE ''Lazer'' (Some ''trans1'')]"


text \<open>The tree of \<open>ledger_example\<close>, a ledger of depth 3, and a sequence of operations.\<close>

definition ledger_tree :: "tnode list" where
  "ledger_tree =
     [\<lparr>tx = ledger_example ! 0, subItems = []\<rparr>,
      \<lparr>tx = ledger_example ! 1, subItems = [3, 2]\<rparr>,
      \<lparr>tx = ledger_example ! 2, subItems = []\<rparr>,
      \<lparr>tx = ledger_example ! 3, subItems = []\<rparr>]"

definition deep_ledger :: "Transaction list" where
  "deep_ledger =
     [mk ''trans1'' 10 ''2024-01-05T00:00:00.000Z'' EXPENSE ''Lazer'' None,
      mk ''trans2'' 10 ''2024-01-10T00:00:00.000Z'' EXPENSE ''Lazer'' (Some ''trans1''),
      mk ''trans3'' 10 ''2024-01-11T00:00:00.000Z'' EXPENSE ''Lazer'' (Some ''trans2'')]"

definition base_ledger :: "Transaction list" where
  "base_ledger =
     [mk ''trans1'' 1000 ''2024-01-05T00:00:00.000Z'' INCOME ''Salary'' None,
      mk ''trans2'' 0 ''2024-01-10T00:00:00.000Z'' EXPENSE ''Groceries'' None]"

definition parent_node :: tnode where
  "parent_node =
     \<lparr>tx = mk ''trans2'' 75 ''2024-01-10T00:00:00.000Z'' EXPENSE ''Groceries'' None,
      subItems = [2, 3]\<rparr>"

definition edited_amount :: txdata where
  "edited_amount =
     \<lparr>d_description = ''groceries'', d_amount = 100, d_date = ''2024-01-10T00:00:00.000Z'',
      d_type = EXPENSE, d_category = ''Groceries'', d_parentId = None, d_notes = None\<rparr>"

definition ops_example :: "op list" where
  "ops_example =
     [Create (Some ''trans2'') 1700000000001 (form_example ''milk'' (Num 30) ''2024-03-01''),
      Create (Some ''trans2'') 1700000000002 (form_example ''bread'' (Num 45) ''2024-03-01''),
      Update parent_node 1700000000003 (form_example ''groceries'' (Num 999) ''2024-03-01''),
      Delete ''trans1700000000001'']"

section \<open>Properties\<close>

subsection \<open>Sums\<close>

lemma foldl_sum_amount: "foldl (\<lambda>sum t. sum + amount t) a xs = a + sum_list (map amount xs)"
  by (induction xs arbitrary: a) (simp_all add: add.assoc)

lemma sumAmounts_sum_list: "sumAmounts xs = sum_list (map amount xs)"
  by (simp add: sumAmounts_def foldl_sum_amount)

subsection \<open>Month filter\<close>

lemma set_months_fold:
  "set (foldl (\<lambda>months t. months_add months (take 7 (date t))) acc ts)
     = set acc \<union> (\<lambda>t. take 7 (date t)) ` set ts"
  by (induction ts arbitrary: acc) (auto simp: months_add_def)

lemma set_availableMonths: "set (availableMonths ts) = (\<lambda>t. take 7 (date t)) ` set ts"
  by (simp add: availableMonths_def set_months_fold)

text \<open>
  Claim C6. Filtering with the literal month \<^verbatim>\<open>all\<close> returns the input unchanged. For a
  month \<open>M\<close> of \<open>availableMonths\<close>, filtering by \<open>M\<close> returns a non-empty sublist of the
  input, and every record of it has a date that starts with \<open>M\<close>; a month string, a
  \<^verbatim>\<open>YYYY-MM\<close> prefix, is never the word \<^verbatim>\<open>all\<close>, which the filter reads as "no filter".
\<close>

theorem month_filter_round_trip:
  "filteredTransactions ''all'' ts = ts \<and>
   (M \<in> set (availableMonths ts) \<longrightarrow>
      filteredTransactions M ts \<noteq> [] \<and>
      subseq (filteredTransactions M ts) ts \<and>
      (M \<noteq> ''all'' \<longrightarrow> (\<forall>t \<in> set (filteredTransactions M ts). startsWith (date t) M)))"
proof -
  have all: "filteredTransactions ''all'' ts = ts"
    by (simp add: filteredTransactions_def)
  have sub: "subseq (filteredTransactions M ts) ts"
    by (simp add: filteredTransactions_def)
  have pre: "M \<noteq> ''all'' \<longrightarrow> (\<forall>t \<in> set (filteredTransactions M ts). startsWith (date t) M)"
    by (simp add: filteredTransactions_def)
  have ne: "filteredTransactions M ts \<noteq> []" if "M \<in> set (availableMonths ts)"
  proof -
    from that obtain t where t: "t \<in> set ts" and M: "M = take 7 (date t)"
      by (auto simp: set_availableMonths)
    have "startsWith (date t) M"
      unfolding startsWith_def M by (rule take_is_prefix)
    with t have "t \<in> set (filter (\<lambda>t. startsWith (date t) M) ts)" by simp
    then have "filter (\<lambda>t. startsWith (date t) M) ts \<noteq> []" by (metis empty_iff empty_set)
    moreover from t have "ts \<noteq> []" by auto
    ultimately show ?thesis by (simp add: filteredTransactions_def)
  qed
  from all sub pre ne show ?thesis by blast
qed

subsection \<open>Period totals\<close>

text \<open>
  Claim C4. \<open>totalIncome\<close> is the sum of the amounts of the top-level records of type
  INCOME, \<open>totalExpense\<close> the one of type EXPENSE, and the balance is their difference.
  Sub-items never contribute: the totals of a set equal the totals of its top-level
  records alone. The code tests \<^verbatim>\<open>!t.parentId\<close>, which holds when the field is absent or
  the empty string; where no record carries an empty \<open>parentId\<close>, the totals are the sums
  over the records whose \<open>parentId\<close> is absent, as the specification words them.
\<close>

theorem period_totals:
  "totalIncome ts =
     sum_list (map amount (filter (\<lambda>t. type_t t = INCOME \<and> \<not> truthy (parentId t)) ts)) \<and>
   totalExpense ts =
     sum_list (map amount (filter (\<lambda>t. type_t t = EXPENSE \<and> \<not> truthy (parentId t)) ts)) \<and>
   balance ts = totalIncome ts - totalExpense ts \<and>
   totalIncome (filter (\<lambda>t. \<not> truthy (parentId t)) ts) = totalIncome ts \<and>
   totalExpense (filter (\<lambda>t. \<not> truthy (parentId t)) ts) = totalExpense ts \<and>
   ((\<forall>t \<in> set ts. parentId t \<noteq> Some []) \<longrightarrow>
      totalIncome ts = spec_total INCOME ts \<and> totalExpense ts = spec_total EXPENSE ts)"
proof -
  have eq: "(\<forall>t \<in> set ts. parentId t \<noteq> Some []) \<Longrightarrow>
      filter (\<lambda>t. type_t t = ty \<and> \<not> truthy (parentId t)) ts
        = filter (\<lambda>t. parentId t = None \<and> type_t t = ty) ts" for ty
    by (rule filter_cong) (auto simp: truthy_def split: option.splits)
  have "filter (\<lambda>t. type_t t = ty \<and> \<not> truthy (parentId t)) (filter (\<lambda>t. \<not> truthy (parentId t)) ts)
        = filter (\<lambda>t. type_t t = ty \<and> \<not> truthy (parentId t)) ts" for ty
    by (simp add: conj_commute cong: conj_cong)
  then show ?thesis
    by (simp add: totalIncome_def totalExpense_def balance_def spec_total_def
        foldl_sum_amount eq)
qed

text \<open>The example ledger of the specification (section 8) instantiates both theorems.\<close>

theorem month_filter_round_trip_witness:
  "''2024-01'' \<in> set (availableMonths ledger_example) \<and>
   ''2024-01'' \<noteq> ''all'' \<and>
   filteredTransactions ''2024-01'' ledger_example = take 3 ledger_example \<and>
   list_all (\<lambda>t. startsWith (date t) ''2024-01'')
     (filteredTransactions ''2024-01'' ledger_example)"
proof -
  have m: "''2024-01'' \<in> set (availableMonths ledger_example)"
    by (simp add: set_availableMonths ledger_example_def mk_def)
  have f: "filteredTransactions ''2024-01'' ledger_example = take 3 ledger_example"
    by (simp add: filteredTransactions_def startsWith_def ledger_example_def mk_def)
  from m f month_filter_round_trip [of ledger_example "''2024-01''"] show ?thesis
    by (simp add: list_all_iff)
qed

theorem period_totals_witness:
  "list_all (\<lambda>t. parentId t \<noteq> Some []) ledger_example \<and>
   totalIncome ledger_example = 1000 \<and> totalExpense ledger_example = 75 \<and>
   balance ledger_example = 925 \<and>
   spec_total INCOME ledger_example = 1000 \<and> spec_total EXPENSE ledger_example = 75"
proof -
  have h: "\<forall>t \<in> set ledger_example. parentId t \<noteq> Some []"
    by (simp add: ledger_example_def mk_def)
  have s: "spec_total INCOME ledger_example = 1000" "spec_total EXPENSE ledger_example = 75"
    by (simp_all add: spec_total_def ledger_example_def mk_def)
  from h s period_totals [of ledger_example] show ?thesis
    by (simp add: list_all_iff)
qed

subsection \<open>Category guard\<close>

text \<open>Where the categories have pairwise distinct ids, the guard does what is asked of it.\<close>

lemma find_distinct_id:
  "distinct (map id_c cs) \<Longrightarrow> c \<in> set cs \<Longrightarrow> find (\<lambda>x. id_c x = id_c c) cs = Some c"
  by (induction cs) (auto simp: image_iff)

lemma filter_distinct_id:
  "distinct (map id_c cs) \<Longrightarrow> c \<in> set cs \<Longrightarrow>
     filter (\<lambda>x. id_c x \<noteq> id_c c) cs = filter (\<lambda>x. x \<noteq> c) cs"
  by (rule filter_cong) (auto simp: distinct_map inj_on_def)

lemma category_guard_distinct_ids:
  assumes "distinct (map id_c (categories ud))" and "c \<in> set (categories ud)"
  shows "(if \<exists>t \<in> set (transactions ud). category t = name c
          then deleteCategory (id_c c) ud = (CategoryInUse, ud)
          else deleteCategory (id_c c) ud
                 = (Deleted, ud\<lparr>categories := filter (\<lambda>x. x \<noteq> c) (categories ud)\<rparr>))"
  using assms
  by (auto simp: deleteCategory_def handleDeleteCategoryRequest_def confirmDeleteCategory_def
      isInUse_def find_distinct_id filter_distinct_id list_ex_iff)

text \<open>
  The ids need not be distinct. Renaming the initial category \<^verbatim>\<open>cat1\<close> and loading the
  ledger again pushes the initial category back under its old name and its old id, so
  that two categories share the id \<^verbatim>\<open>cat1\<close>.
\<close>

lemma reloaded_categories:
  "categories reloaded =
     [\<lparr>id_c = ''cat1'', name = ''Mercado'', icon = Some ''shopping_cart''\<rparr>,
      \<lparr>id_c = ''cat2'', name = ''Contas de Casa'', icon = Some ''home''\<rparr>,
      \<lparr>id_c = ''cat3'', name = ''Aluguel'', icon = Some ''key''\<rparr>,
      \<lparr>id_c = ''cat4'', name = ''Sal'' @ [CHR 0xC3, CHR 0xA1] @ ''rio'', icon = Some ''currency_dollar''\<rparr>,
      \<lparr>id_c = ''cat5'', name = ''Lazer'', icon = Some ''puzzle_piece''\<rparr>,
      supermercado]"
  by (simp add: reloaded_def mergedCategories_def renamed_categories_def handleUpdateCategory_def
      trim_def stripLeading.simps whiteSpace_def INITIAL_CATEGORIES_def withIcon_def supermercado_def)

text \<open>
  Claim C5. Deleting a category whose name is used by a transaction must fail with
  \<open>CategoryInUse\<close>. In the reloaded ledger the category Supermercado is in the active set
  and is used by a transaction, yet the deletion issued for its id succeeds and removes
  it: the request finds the other category with that id, whose name is unused, and the
  confirmation removes every category with that id.
\<close>

theorem category_guard_shared_id:
  "supermercado \<in> set (categories reloaded) \<and>
   list_ex (\<lambda>t. category t = name supermercado) (transactions reloaded) \<and>
   fst (deleteCategory (id_c supermercado) reloaded) = Deleted \<and>
   supermercado \<notin> set (categories (snd (deleteCategory (id_c supermercado) reloaded)))"
  by (simp add: reloaded_categories)
     (simp add: reloaded_def deleteCategory_def handleDeleteCategoryRequest_def
       confirmDeleteCategory_def isInUse_def supermercado_def mk_def
       mergedCategories_def renamed_categories_def handleUpdateCategory_def
       trim_def stripLeading.simps whiteSpace_def INITIAL_CATEGORIES_def withIcon_def)

subsection \<open>Identifiers and re-derivation\<close>

lemma id_eq_iff:
  "distinct (map id_t ts) \<Longrightarrow> r \<in> set ts \<Longrightarrow> t \<in> set ts \<Longrightarrow> id_t t = id_t r \<longleftrightarrow> t = r"
  by (auto simp: distinct_map inj_on_def)

lemma find_id:
  "distinct (map id_t ts) \<Longrightarrow> r \<in> set ts \<Longrightarrow> find (\<lambda>t. id_t t = id_t r) ts = Some r"
  by (induction ts) (auto simp: image_iff)

lemma find_id_None: "i \<notin> set (map id_t ts) \<Longrightarrow> find (\<lambda>t. id_t t = i) ts = None"
  by (induction ts) auto

lemma rederive_alt:
  "rederive p ts =
     map (\<lambda>t. if id_t t = p then t\<lparr>amount := sum_list (map amount (children ts p))\<rparr> else t) ts"
  by (simp add: rederive_def children_def sumAmounts_sum_list)

lemma rederive_no_parent: "p \<notin> set (map id_t ts) \<Longrightarrow> rederive p ts = ts"
  by (auto simp: rederive_alt intro!: map_idI)

lemma length_rederive [simp]: "length (rederive p ts) = length ts"
  by (simp add: rederive_alt)

subsection \<open>Creating under a dangling parent\<close>

text \<open>
  Claim C10, amended. Creating a record whose \<open>parentId\<close> matches no existing record's id
  appends one record and leaves every record already in the set unchanged; the appended
  record is exactly the new record provided the identifier generated for it differs from
  that \<open>parentId\<close>.
\<close>

theorem create_dangling_parent:
  assumes "d_parentId d = Some p" and "p \<notin> set (map id_t ts)"
  shows "take (length ts) (handleSaveTransaction None now d ts) = ts \<and>
         length (handleSaveTransaction None now d ts) = Suc (length ts) \<and>
         (newId now \<noteq> p \<longrightarrow> handleSaveTransaction None now d ts = ts @ [newTransaction d now])"
proof (cases "p = []")
  case True
  with assms show ?thesis by (simp add: handleSaveTransaction_def)
next
  case False
  have keep: "map (\<lambda>t. if id_t t = p then t\<lparr>amount := a\<rparr> else t) ts = ts" for a
    using assms(2) by (auto intro!: map_idI)
  have new: "newId now \<noteq> p \<Longrightarrow>
      (if id_t (newTransaction d now) = p then (newTransaction d now)\<lparr>amount := a\<rparr>
       else newTransaction d now) = newTransaction d now" for a
    by (simp add: newTransaction_def)
  from False assms(1) show ?thesis
    by (simp add: handleSaveTransaction_def rederive_alt keep new)
qed

lemma newId_example: "newId 1700000000000 = ''trans1700000000000''"
  by (simp add: newId_def dec.simps)

lemma newId_example2: "newId 1700000000123 = ''trans1700000000123''"
  by (simp add: newId_def dec.simps)

theorem create_dangling_parent_witness:
  "d_parentId (sub_data ''trans99'' 3) = Some ''trans99'' \<and>
   ''trans99'' \<notin> set (map id_t orphan_ledger) \<and>
   newId 1700000000123 \<noteq> ''trans99'' \<and>
   handleSaveTransaction None 1700000000123 (sub_data ''trans99'' 3) orphan_ledger
     = orphan_ledger @ [newTransaction (sub_data ''trans99'' 3) 1700000000123]"
proof -
  have a: "d_parentId (sub_data ''trans99'' 3) = Some ''trans99''"
    by (simp add: sub_data_def)
  have b: "''trans99'' \<notin> set (map id_t orphan_ledger)"
    by (simp add: orphan_ledger_def mk_def)
  have c: "newId 1700000000123 \<noteq> ''trans99''"
    by (simp add: newId_example2)
  from a b c create_dangling_parent [OF a b, of 1700000000123] show ?thesis
    by simp
qed

text \<open>
  Claim C10 as stated fails when the generated identifier is the dangling \<open>parentId\<close>
  itself: the re-derivation then writes to the new record, whose amount 3 becomes the
  sum 10 of the records naming that parent.
\<close>

theorem create_dangling_parent_counterexample:
  "d_parentId (sub_data ''trans1700000000000'' 3) = Some ''trans1700000000000'' \<and>
   ''trans1700000000000'' \<notin> set (map id_t orphan_ledger) \<and>
   handleSaveTransaction None 1700000000000 (sub_data ''trans1700000000000'' 3) orphan_ledger
     = orphan_ledger @ [(newTransaction (sub_data ''trans1700000000000'' 3) 1700000000000)\<lparr>amount := 10\<rparr>] \<and>
   handleSaveTransaction None 1700000000000 (sub_data ''trans1700000000000'' 3) orphan_ledger
     \<noteq> orphan_ledger @ [newTransaction (sub_data ''trans1700000000000'' 3) 1700000000000]"
  by (simp add: handleSaveTransaction_def rederive_def sumAmounts_def newTransaction_def
      newId_example sub_data_def orphan_ledger_def mk_def)

subsection \<open>Submissions that are not saved\<close>

text \<open>
  The form restricted to finite amounts is the form: on those states the two models
  agree on what is handed to \<^verbatim>\<open>onSave\<close> and on the record set afterwards.
\<close>

lemma handleSubmit_of_form:
  "handleSubmit_state toISOString e p (of_form f) =
     map_sum id (map_option of_txdata) (handleSubmit toISOString e p f)"
  by (cases "f_amount f"; cases e)
     (auto simp: handleSubmit_state_def handleSubmit_def of_form_def of_txdata_def Let_def
       split: option.splits)

lemma save_state_of_form:
  "save_state toISOString e p now (of_form f) ts = Some (saveViaModal toISOString e p now f ts)"
  by (cases "f_amount f"; cases e)
     (auto simp: save_state_def saveViaModal_def handleSubmit_state_def handleSubmit_def of_form_def
       Let_def split: option.splits)

text \<open>
  The amount is \<open>Unset\<close> only in the form of a new record whose amount field was never
  changed: an edit opens with the record's amount, and every change stores a number.
\<close>

lemma amount_unset_only_untouched:
  "openAmount (Some e) \<noteq> Unset \<and> changeAmount parseFloat v \<noteq> Unset \<and> openAmount None = Unset"
  by (simp add: openAmount_def changeAmount_def)

text \<open>
  Claim C7, amended. A submission whose description is empty, whose amount is still the
  untouched \<^verbatim>\<open>''\<close>, whose date is empty or whose category is empty is dropped silently:
  \<^verbatim>\<open>onSave\<close> is not called, nothing is signalled and the record set is unchanged. With
  these four present, a date that the runtime cannot parse aborts the submission with a
  \<open>RangeError\<close> before \<^verbatim>\<open>onSave\<close> is called, and the record set is unchanged. With these
  four present and a date that parses, the submission is handed to the save whatever
  number the amount holds, a negative one and the \<^verbatim>\<open>NaN\<close> of a cleared or non-numeric field
  included (for a record with sub-items the amount handed over is the record's own).
  There is no validation error.
\<close>

theorem invalid_submission_dropped:
  "((m_description s = [] \<or> m_amount s = Unset \<or> m_date s = [] \<or> m_category s = []) \<longrightarrow>
      handleSubmit_state toISOString e p s = Inr None \<and>
      save_state toISOString e p now s ts = Some ts) \<and>
   (m_description s \<noteq> [] \<and> m_amount s \<noteq> Unset \<and> m_date s \<noteq> [] \<and> m_category s \<noteq> [] \<and>
    toISOString (m_date s) = None \<longrightarrow>
      handleSubmit_state toISOString e p s = Inl RangeError \<and>
      save_state toISOString e p now s ts = Some ts) \<and>
   (m_description s \<noteq> [] \<and> m_amount s = Held n \<and> m_date s \<noteq> [] \<and> m_category s \<noteq> [] \<and>
    toISOString (m_date s) \<noteq> None \<longrightarrow>
      (\<exists>v. handleSubmit_state toISOString e p s = Inr (Some v) \<and>
           a_amount v = (case e of None \<Rightarrow> n
                         | Some t \<Rightarrow> if subItems t \<noteq> [] then Fin (amount (tx t)) else n)))"
  by (cases "m_amount s")
     (auto simp: save_state_def handleSubmit_state_def Let_def split: option.splits)

theorem invalid_submission_dropped_witness:
  "m_description (state_example '''' (Held (Fin 5)) ''2024-03-01'' ''Lazer'') = [] \<and>
   handleSubmit_state toISO_example None None
     (state_example '''' (Held (Fin 5)) ''2024-03-01'' ''Lazer'') = Inr None \<and>
   save_state toISO_example None None 1700000000000
     (state_example '''' (Held (Fin 5)) ''2024-03-01'' ''Lazer'') ledger_example = Some ledger_example \<and>
   m_amount (state_example ''milk'' Unset ''2024-03-01'' ''Lazer'') = Unset \<and>
   handleSubmit_state toISO_example None None
     (state_example ''milk'' Unset ''2024-03-01'' ''Lazer'') = Inr None \<and>
   save_state toISO_example None None 1700000000000
     (state_example ''milk'' Unset ''2024-03-01'' ''Lazer'') ledger_example = Some ledger_example \<and>
   toISO_example (m_date (state_example ''milk'' (Held (Fin 5)) ''31/02/2024'' ''Lazer'')) = None \<and>
   handleSubmit_state toISO_example None None
     (state_example ''milk'' (Held (Fin 5)) ''31/02/2024'' ''Lazer'') = Inl RangeError \<and>
   save_state toISO_example None None 1700000000000
     (state_example ''milk'' (Held (Fin 5)) ''31/02/2024'' ''Lazer'') ledger_example = Some ledger_example \<and>
   handleSubmit_state toISO_example None None
     (state_example ''milk'' (Held (Fin 5)) ''2024-03-01'' ''Lazer'')
     = Inr (Some \<lparr>a_description = ''milk'', a_amount = Fin 5, a_date = ''2024-03-01T00:00:00.000Z'',
                  a_type = EXPENSE, a_category = ''Lazer'', a_parentId = None, a_notes = None\<rparr>)"
proof -
  let ?s1 = "state_example '''' (Held (Fin 5)) ''2024-03-01'' ''Lazer''"
  let ?s2 = "state_example ''milk'' Unset ''2024-03-01'' ''Lazer''"
  let ?s3 = "state_example ''milk'' (Held (Fin 5)) ''31/02/2024'' ''Lazer''"
  let ?s4 = "state_example ''milk'' (Held (Fin 5)) ''2024-03-01'' ''Lazer''"
  have a: "m_description ?s1 = []" by (simp add: state_example_def)
  have b: "m_amount ?s2 = Unset" by (simp add: state_example_def)
  have c: "m_description ?s3 \<noteq> []" "m_amount ?s3 \<noteq> Unset" "m_date ?s3 \<noteq> []" "m_category ?s3 \<noteq> []"
    "toISO_example (m_date ?s3) = None"
    by (simp_all add: state_example_def toISO_example_def)
  have d: "m_description ?s4 \<noteq> []" "m_amount ?s4 = Held (Fin 5)" "m_date ?s4 \<noteq> []"
    "m_category ?s4 \<noteq> []" "toISO_example (m_date ?s4) \<noteq> None"
    by (simp_all add: state_example_def toISO_example_def)
  have e: "handleSubmit_state toISO_example None None ?s4
     = Inr (Some \<lparr>a_description = ''milk'', a_amount = Fin 5, a_date = ''2024-03-01T00:00:00.000Z'',
                  a_type = EXPENSE, a_category = ''Lazer'', a_parentId = None, a_notes = None\<rparr>)"
    by (simp add: handleSubmit_state_def state_example_def toISO_example_def truthy_def)
  from invalid_submission_dropped [where s = ?s1 and toISOString = toISO_example and e = None
         and p = None and now = 1700000000000 and ts = ledger_example]
       invalid_submission_dropped [where s = ?s2 and toISOString = toISO_example and e = None
         and p = None and now = 1700000000000 and ts = ledger_example]
       invalid_submission_dropped [where s = ?s3 and toISOString = toISO_example and e = None
         and p = None and now = 1700000000000 and ts = ledger_example]
       invalid_submission_dropped [where s = ?s4 and toISOString = toISO_example and e = None
         and p = None and now = 1700000000000 and ts = ledger_example and n = "Fin 5"]
       a b c d e
  show ?thesis by simp
qed

text \<open>
  Claim C7 as stated fails for a negative amount: the form hands it to the save, and the
  record is appended with the amount \<open>- 5\<close>.
\<close>

theorem negative_amount_accepted:
  "f_amount (form_example ''refund'' (Num (- 5)) ''2024-03-01'') = Num (- 5) \<and>
   handleSubmit toISO_example None None (form_example ''refund'' (Num (- 5)) ''2024-03-01'')
     = Inr (Some \<lparr>d_description = ''refund'', d_amount = - 5, d_date = ''2024-03-01T00:00:00.000Z'',
                  d_type = EXPENSE, d_category = ''Lazer'', d_parentId = None, d_notes = None\<rparr>) \<and>
   saveViaModal toISO_example None None 1700000000000
       (form_example ''refund'' (Num (- 5)) ''2024-03-01'') []
     = [\<lparr>id_t = ''trans1700000000000'', description = ''refund'', amount = - 5,
         date = ''2024-03-01T00:00:00.000Z'', type_t = EXPENSE, category = ''Lazer'',
         parentId = None, notes_t = None\<rparr>]"
  by (simp add: saveViaModal_def handleSubmit_def handleSaveTransaction_def newTransaction_def
      newId_example form_example_def toISO_example_def truthy_def)

text \<open>
  It fails for a non-numeric amount as well. Clearing the amount field stores
  \<^verbatim>\<open>parseFloat('')\<close>, which is \<^verbatim>\<open>NaN\<close> and not \<^verbatim>\<open>''\<close>: the guard passes, in the form of a new
  record and in the form of an edit alike, and \<^verbatim>\<open>onSave\<close> is called with the amount \<^verbatim>\<open>NaN\<close>.
\<close>

lemma cleared_amount_accepted:
  "changeAmount parseFloat_example [] = Held NaN \<and>
   handleSubmit_state toISO_example None None
       (state_example ''refund'' (changeAmount parseFloat_example []) ''2024-03-01'' ''Lazer'')
     = Inr (Some \<lparr>a_description = ''refund'', a_amount = NaN, a_date = ''2024-03-01T00:00:00.000Z'',
                  a_type = EXPENSE, a_category = ''Lazer'', a_parentId = None, a_notes = None\<rparr>) \<and>
   openAmount (Some leaf_node) = Held (Fin 1000) \<and>
   handleSubmit_state toISO_example (Some leaf_node) None
       (state_example ''salary'' (changeAmount parseFloat_example []) ''2024-03-01'' ''Salary'')
     = Inr (Some \<lparr>a_description = ''salary'', a_amount = NaN, a_date = ''2024-03-01T00:00:00.000Z'',
                  a_type = EXPENSE, a_category = ''Salary'', a_parentId = None, a_notes = None\<rparr>)"
  by (simp add: handleSubmit_state_def state_example_def changeAmount_def openAmount_def
      parseFloat_example_def toISO_example_def truthy_def leaf_node_def mk_def)

subsection \<open>Cascading delete\<close>

lemma id_in_children_iff:
  assumes "distinct (map id_t (ts :: Transaction list))" and "t \<in> set ts"
  shows "id_t t \<in> id_t ` set (children ts i) \<longleftrightarrow> parentId t = Some i"
proof
  assume "id_t t \<in> id_t ` set (children ts i)"
  then obtain c where c: "c \<in> set ts" "parentId c = Some i" "id_t c = id_t t"
    by (auto simp: children_def)
  with assms have "c = t" by (simp add: id_eq_iff)
  with c show "parentId t = Some i" by simp
next
  assume "parentId t = Some i"
  with assms(2) show "id_t t \<in> id_t ` set (children ts i)" by (auto simp: children_def)
qed

lemma delete_filter:
  assumes "distinct (map id_t (ts :: Transaction list))" and "r \<in> set ts"
  shows "filter (\<lambda>t. id_t t \<notin> set (id_t r # map id_t (filter (\<lambda>t. parentId t = Some (id_t r)) ts))) ts
           = filter (\<lambda>t. t \<noteq> r \<and> parentId t \<noteq> Some (id_t r)) ts"
proof (rule filter_cong[OF refl])
  fix t assume t: "t \<in> set ts"
  have "id_t t \<in> id_t ` set (children ts (id_t r)) \<longleftrightarrow> parentId t = Some (id_t r)"
    using assms(1) t by (rule id_in_children_iff)
  moreover have "id_t t = id_t r \<longleftrightarrow> t = r"
    using assms t by (simp add: id_eq_iff)
  ultimately show "(id_t t \<notin> set (id_t r # map id_t (filter (\<lambda>t. parentId t = Some (id_t r)) ts)))
      = (t \<noteq> r \<and> parentId t \<noteq> Some (id_t r))"
    by (simp add: children_def)
qed

lemma length_filter_split:
  "length (filter P xs) + length (filter (\<lambda>x. \<not> P x) xs) = length xs"
  by (induction xs) auto

lemma length_filter_eq_one:
  "distinct xs \<Longrightarrow> r \<in> set xs \<Longrightarrow> length (filter (\<lambda>t. t = r) xs) = 1"
  by (induction xs) (auto simp: filter_empty_conv)

lemma length_filter_disj:
  "(\<And>x. x \<in> set xs \<Longrightarrow> \<not> (P x \<and> Q x)) \<Longrightarrow>
     length (filter (\<lambda>x. P x \<or> Q x) xs) = length (filter P xs) + length (filter Q xs)"
  by (induction xs) auto

text \<open>
  Claim C3. In a record set with unique ids and depth at most 2, deleting a top-level
  record removes that record and the records whose \<open>parentId\<close> is its id, \<open>N + 1\<close> records
  for \<open>N\<close> children, and keeps every other record as it is; deleting a sub-item removes
  that record alone and writes to its parent the sum of the remaining children.
\<close>

theorem cascading_delete:
  assumes "distinct (map id_t (ts :: Transaction list))" and "depth2 ts" and "r \<in> set ts"
  shows "(\<not> truthy (parentId r) \<longrightarrow>
            confirmDeleteTransaction (id_t r) ts
              = filter (\<lambda>t. t \<noteq> r \<and> parentId t \<noteq> Some (id_t r)) ts \<and>
            length (confirmDeleteTransaction (id_t r) ts) + length (children ts (id_t r)) + 1
              = length ts) \<and>
         (\<forall>p. truthy (parentId r) \<and> parentId r = Some p \<longrightarrow>
            confirmDeleteTransaction (id_t r) ts
              = map (\<lambda>t. if id_t t = p
                          then t\<lparr>amount := sum_list (map amount (children (filter (\<lambda>t. t \<noteq> r) ts) p))\<rparr>
                          else t)
                  (filter (\<lambda>t. t \<noteq> r) ts))"
proof -
  have found: "find (\<lambda>t. id_t t = id_t r) ts = Some r"
    using assms(1,3) by (rule find_id)
  have dts: "distinct ts"
    using assms(1) by (simp add: distinct_map)
  have self: "parentId r \<noteq> Some (id_t r)"
    using assms(2,3) unfolding depth2_def by force
  have top: "confirmDeleteTransaction (id_t r) ts
               = filter (\<lambda>t. t \<noteq> r \<and> parentId t \<noteq> Some (id_t r)) ts"
    if "\<not> truthy (parentId r)"
    using that delete_filter[OF assms(1,3)]
    by (auto simp: confirmDeleteTransaction_def found truthy_def Let_def split: option.splits)
  have len: "length (filter (\<lambda>t. t \<noteq> r \<and> parentId t \<noteq> Some (id_t r)) ts)
               + length (children ts (id_t r)) + 1 = length ts"
  proof -
    have "length (filter (\<lambda>t. \<not> (t \<noteq> r \<and> parentId t \<noteq> Some (id_t r))) ts)
            = length (filter (\<lambda>t. t = r) ts) + length (filter (\<lambda>t. parentId t = Some (id_t r)) ts)"
      using self by (simp add: length_filter_disj)
    also have "\<dots> = 1 + length (children ts (id_t r))"
      using dts assms(3) by (simp add: length_filter_eq_one children_def)
    finally show ?thesis
      using length_filter_split[of "\<lambda>t. t \<noteq> r \<and> parentId t \<noteq> Some (id_t r)" ts] by simp
  qed
  have sub: "confirmDeleteTransaction (id_t r) ts
               = map (\<lambda>t. if id_t t = p
                          then t\<lparr>amount := sum_list (map amount (children (filter (\<lambda>t. t \<noteq> r) ts) p))\<rparr>
                          else t)
                   (filter (\<lambda>t. t \<noteq> r) ts)"
    if "truthy (parentId r)" and "parentId r = Some p" for p
  proof -
    have nochild: "\<forall>t \<in> set ts. parentId t \<noteq> Some (id_t r)"
      using assms(2,3) that unfolding depth2_def by (auto simp: truthy_def)
    then have "filter (\<lambda>t. t \<noteq> r \<and> parentId t \<noteq> Some (id_t r)) ts = filter (\<lambda>t. t \<noteq> r) ts"
      by (auto intro: filter_cong)
    with delete_filter[OF assms(1,3)] that show ?thesis
      by (simp add: confirmDeleteTransaction_def found truthy_def Let_def rederive_alt)
  qed
  from top len sub show ?thesis by auto
qed

theorem cascading_delete_witness:
  "distinct (map id_t ledger_example) \<and> depth2 ledger_example \<and>
   ledger_example ! 1 \<in> set ledger_example \<and> ledger_example ! 2 \<in> set ledger_example \<and>
   \<not> truthy (parentId (ledger_example ! 1)) \<and>
   truthy (parentId (ledger_example ! 2)) \<and>
   confirmDeleteTransaction ''trans2'' ledger_example = [ledger_example ! 0] \<and>
   length (children ledger_example ''trans2'') = 2 \<and>
   confirmDeleteTransaction ''trans3'' ledger_example
     = [ledger_example ! 0, (ledger_example ! 1)\<lparr>amount := 45\<rparr>, ledger_example ! 3]"
proof -
  have a: "distinct (map id_t ledger_example)"
    by (simp add: ledger_example_def mk_def)
  have b: "depth2 ledger_example"
    by (simp add: depth2_def ledger_example_def mk_def)
  have c: "ledger_example ! 1 \<in> set ledger_example" "ledger_example ! 2 \<in> set ledger_example"
    by (simp_all add: ledger_example_def)
  have d: "\<not> truthy (parentId (ledger_example ! 1))" "truthy (parentId (ledger_example ! 2))"
    "parentId (ledger_example ! 2) = Some ''trans2''"
    "id_t (ledger_example ! 1) = ''trans2''" "id_t (ledger_example ! 2) = ''trans3''"
    by (simp_all add: truthy_def ledger_example_def mk_def)
  have e: "filter (\<lambda>t. t \<noteq> ledger_example ! 1 \<and> parentId t \<noteq> Some ''trans2'') ledger_example
             = [ledger_example ! 0]"
    "length (children ledger_example ''trans2'') = 2"
    by (simp_all add: children_def ledger_example_def mk_def)
  have f: "map (\<lambda>t. if id_t t = ''trans2''
                    then t\<lparr>amount := sum_list (map amount
                           (children (filter (\<lambda>t. t \<noteq> ledger_example ! 2) ledger_example) ''trans2''))\<rparr>
                    else t)
             (filter (\<lambda>t. t \<noteq> ledger_example ! 2) ledger_example)
           = [ledger_example ! 0, (ledger_example ! 1)\<lparr>amount := 45\<rparr>, ledger_example ! 3]"
    by (simp add: children_def ledger_example_def mk_def)
  from cascading_delete [OF a b c(1)] cascading_delete [OF a b c(2)] a b c d e f
  show ?thesis by simp
qed


subsection \<open>Tree builder: the index\<close>

text \<open>The first loop allocates one node per record and binds every id to the latest one.\<close>

lemma indexRecords_snoc:
  "indexRecords (ts @ [t]) h m =
     (case indexRecords ts h m of
        (h', m') \<Rightarrow> (h' @ [\<lparr>tx = t, subItems = []\<rparr>], tm_set (id_t t) (length h') m'))"
  by (induction ts arbitrary: h m) auto

lemma indexRecords_heap: "fst (indexRecords ts h m) = h @ freshNodes ts"
  by (induction ts arbitrary: h m) (auto simp: freshNodes_def)

lemma builtMap_Nil: "builtMap [] = \<lparr>own = [], proto = None\<rparr>"
  by (simp add: builtMap_def)

lemma builtMap_snoc: "builtMap (ts @ [t]) = tm_set (id_t t) (length ts) (builtMap ts)"
proof -
  obtain h' m' where hm: "indexRecords ts [] \<lparr>own = [], proto = None\<rparr> = (h', m')"
    by (cases "indexRecords ts [] \<lparr>own = [], proto = None\<rparr>")
  with indexRecords_heap[of ts "[]" "\<lparr>own = [], proto = None\<rparr>"]
  have "length h' = length ts" by (simp add: freshNodes_def)
  with hm show ?thesis
    by (simp add: builtMap_def indexRecords_snoc)
qed

lemma own_sound:
  "map_of (own (builtMap ts)) k = Some r \<Longrightarrow> r < length ts \<and> id_t (ts ! r) = k \<and> k \<noteq> ''__proto__''"
proof (induction ts arbitrary: r rule: rev_induct)
  case Nil
  then show ?case by (simp add: builtMap_Nil)
next
  case (snoc t ts)
  show ?case
  proof (cases "id_t t = ''__proto__''")
    case True
    with snoc.prems have "map_of (own (builtMap ts)) k = Some r"
      by (simp add: builtMap_snoc tm_set_def)
    from snoc.IH[OF this] show ?thesis by (simp add: nth_append)
  next
    case False
    show ?thesis
    proof (cases "k = id_t t")
      case True
      with False snoc.prems have "r = length ts"
        by (simp add: builtMap_snoc tm_set_def)
      with True False show ?thesis by simp
    next
      case k: False
      with False snoc.prems have "map_of (own (builtMap ts)) k = Some r"
        by (simp add: builtMap_snoc tm_set_def)
      from snoc.IH[OF this] show ?thesis by (simp add: nth_append)
    qed
  qed
qed

lemma own_complete:
  "k \<in> id_t ` set ts \<Longrightarrow> k \<noteq> ''__proto__'' \<Longrightarrow> \<exists>r. map_of (own (builtMap ts)) k = Some r"
proof (induction ts rule: rev_induct)
  case Nil
  then show ?case by simp
next
  case (snoc t ts)
  then show ?case
    by (cases "id_t t = ''__proto__''"; cases "k = id_t t")
       (auto simp: builtMap_snoc tm_set_def)
qed

lemma proto_sound:
  "proto (builtMap ts) = Some r \<Longrightarrow> r < length ts \<and> id_t (ts ! r) = ''__proto__''"
proof (induction ts arbitrary: r rule: rev_induct)
  case Nil
  then show ?case by (simp add: builtMap_Nil)
next
  case (snoc t ts)
  show ?case
  proof (cases "id_t t = ''__proto__''")
    case True
    with snoc.prems have "r = length ts" by (simp add: builtMap_snoc tm_set_def)
    with True show ?thesis by simp
  next
    case False
    with snoc.prems have "proto (builtMap ts) = Some r" by (simp add: builtMap_snoc tm_set_def)
    from snoc.IH[OF this] show ?thesis by (simp add: nth_append)
  qed
qed

lemma proto_complete:
  "''__proto__'' \<in> id_t ` set ts \<Longrightarrow> \<exists>r. proto (builtMap ts) = Some r"
proof (induction ts rule: rev_induct)
  case Nil
  then show ?case by simp
next
  case (snoc t ts)
  then show ?case
    by (cases "id_t t = ''__proto__''") (auto simp: builtMap_snoc tm_set_def)
qed

lemma resolve_alt: "resolve ts k = tm_get (freshNodes ts) (builtMap ts) k"
proof -
  obtain h' m' where hm: "indexRecords ts [] \<lparr>own = [], proto = None\<rparr> = (h', m')"
    by (cases "indexRecords ts [] \<lparr>own = [], proto = None\<rparr>")
  with indexRecords_heap[of ts "[]" "\<lparr>own = [], proto = None\<rparr>"]
  have "h' = freshNodes ts" by simp
  with hm show ?thesis
    by (simp add: resolve_def builtMap_def)
qed

lemma nodeProperty_not_node: "nodeProperty t k \<noteq> Some (NodeRef r)"
  by (simp add: nodeProperty_def split: option.splits)

lemma resolve_sound:
  assumes "resolve ts k = NodeRef r"
  shows "r < length ts \<and> id_t (ts ! r) = k"
proof (cases "k = ''__proto__''")
  case True
  with assms have "proto (builtMap ts) = Some r"
    by (simp add: resolve_alt tm_get_def split: option.splits)
  from proto_sound[OF this] True show ?thesis by simp
next
  case False
  with assms have "map_of (own (builtMap ts)) k = Some r"
    using nodeProperty_not_node
    by (auto simp: resolve_alt tm_get_def split: option.splits if_splits)
  from own_sound[OF this] show ?thesis by simp
qed

lemma resolve_complete:
  assumes "k \<in> id_t ` set ts"
  shows "\<exists>r. resolve ts k = NodeRef r"
proof (cases "k = ''__proto__''")
  case True
  with assms proto_complete[of ts] show ?thesis
    by (auto simp: resolve_alt tm_get_def)
next
  case False
  with assms own_complete[of k ts] show ?thesis
    by (auto simp: resolve_alt tm_get_def)
qed

lemma indexRecords_binds:
  assumes "t \<in> set ts" and "indexRecords ts [] \<lparr>own = [], proto = None\<rparr> = (h, m)"
  shows "\<exists>c. tm_get h m (id_t t) = NodeRef c"
proof -
  from assms(1) have "id_t t \<in> id_t ` set ts" by simp
  then obtain c where "resolve ts (id_t t) = NodeRef c" using resolve_complete by blast
  with assms(2) show ?thesis by (auto simp: resolve_def)
qed

lemma resolve_distinct:
  assumes "distinct (map id_t ts)" and "r < length ts"
  shows "resolve ts (id_t (ts ! r)) = NodeRef r"
proof -
  from assms(2) have "id_t (ts ! r) \<in> id_t ` set ts" by simp
  then obtain q where q: "resolve ts (id_t (ts ! r)) = NodeRef q"
    using resolve_complete by blast
  from resolve_sound[OF q] have "q < length ts" "id_t (ts ! q) = id_t (ts ! r)" by simp_all
  with assms have "q = r"
    by (metis distinct_conv_nth length_map nth_map)
  with q show ?thesis by simp
qed

lemma resolve_missing:
  assumes "''__proto__'' \<notin> id_t ` set ts" and "k \<notin> id_t ` set ts"
  shows "resolve ts k =
           (if k = ''__proto__'' \<or> k \<in> set objectPrototypeKeys then Other True else Undefined)"
proof -
  have p: "proto (builtMap ts) = None"
  proof (cases "proto (builtMap ts)")
    case (Some a)
    from proto_sound[OF this] have "a < length ts" "id_t (ts ! a) = ''__proto__''"
      by simp_all
    then have "''__proto__'' \<in> id_t ` set ts" by (metis imageI nth_mem)
    with assms(1) show ?thesis by simp
  qed simp
  have o: "map_of (own (builtMap ts)) k = None"
  proof (cases "map_of (own (builtMap ts)) k")
    case (Some a)
    from own_sound[OF this] have "a < length ts" "id_t (ts ! a) = k"
      by simp_all
    then have "k \<in> id_t ` set ts" by (metis imageI nth_mem)
    with assms(2) show ?thesis by simp
  qed simp
  show ?thesis by (simp add: resolve_alt tm_get_def p o)
qed

subsection \<open>Tree builder: attaching and sorting\<close>

text \<open>
  Pushing into a \<^verbatim>\<open>subItems\<close> array changes no field the map reads, so the second loop
  sees one fixed lookup function; its result has a closed form when it does not throw.
\<close>

lemma tm_get_tx: "(\<And>r. tx (h ! r) = tx (h' ! r)) \<Longrightarrow> tm_get h m k = tm_get h' m k"
  by (simp add: tm_get_def split: option.splits)

lemma tx_push: "tx (h[q := (h ! q)\<lparr>subItems := s\<rparr>] ! r) = tx (h ! r)"
  by (cases "q < length h"; cases "r = q") (simp_all add: list_update_beyond)

lemma map_tx_push: "map tx (h[q := (h ! q)\<lparr>subItems := s\<rparr>]) = map tx h"
  by (rule nth_equalityI) (simp_all add: tx_push)

lemma attachAll_shape:
  assumes "\<And>k. tm_get h m k = look k"
      and "\<And>k q. look k = NodeRef q \<Longrightarrow> q < length h"
      and "attachAll m ts h roots = Inr (h', roots')"
  shows "length h' = length h \<and> map tx h' = map tx h \<and>
         roots' = roots @ map (selfRef look) (filter (\<lambda>t. attachTarget look t = None) ts) \<and>
         (\<forall>q < length h. subItems (h' ! q) =
            subItems (h ! q) @ map (selfRef look) (filter (\<lambda>t. attachTarget look t = Some q) ts))"
  using assms
proof (induction ts arbitrary: h roots)
  case Nil
  then show ?case by simp
next
  case (Cons t ts)
  from Cons.prems(1,3) obtain c where c: "look (id_t t) = NodeRef c"
    by (cases "look (id_t t)") simp_all
  then have self: "selfRef look t = c" by (simp add: selfRef_def)
  show ?case
  proof (cases "attachTarget look t")
    case None
    with Cons.prems(1,3) c have run: "attachAll m ts h (roots @ [c]) = Inr (h', roots')"
      by (auto simp: attachTarget_def split: option.splits if_splits jsval.splits)
    from Cons.IH[OF Cons.prems(1) Cons.prems(2) run] None self show ?thesis
      by simp
  next
    case (Some q)
    then obtain p where p: "parentId t = Some p" "p \<noteq> []" "look p = NodeRef q"
      by (auto simp: attachTarget_def split: option.splits if_splits jsval.splits)
    define h2 where "h2 = h[q := (h ! q)\<lparr>subItems := subItems (h ! q) @ [c]\<rparr>]"
    from Cons.prems(1,3) c p have run: "attachAll m ts h2 roots = Inr (h', roots')"
      by (simp add: h2_def)
    have look2: "tm_get h2 m k = look k" for k
      using Cons.prems(1)[of k] tm_get_tx[of h2 h m k] by (simp add: h2_def tx_push)
    have len2: "length h2 = length h" by (simp add: h2_def)
    have bound2: "look k = NodeRef r \<Longrightarrow> r < length h2" for k r
      using Cons.prems(2) len2 by simp
    have q: "q < length h" using Cons.prems(2) p(3) by blast
    from Cons.IH[OF look2 bound2 run]
    have ih: "length h' = length h2" "map tx h' = map tx h2"
      "roots' = roots @ map (selfRef look) (filter (\<lambda>t. attachTarget look t = None) ts)"
      "\<forall>r < length h2. subItems (h' ! r) =
         subItems (h2 ! r) @ map (selfRef look) (filter (\<lambda>t. attachTarget look t = Some r) ts)"
      by simp_all
    have sub: "subItems (h' ! r) =
        subItems (h ! r) @ map (selfRef look) (filter (\<lambda>t. attachTarget look t = Some r) (t # ts))"
      if "r < length h" for r
    proof (cases "r = q")
      case True
      with ih(4) that len2 q Some self show ?thesis by (simp add: h2_def)
    next
      case False
      with ih(4) that len2 Some show ?thesis by (simp add: h2_def)
    qed
    from ih(1,2,3) len2 Some sub show ?thesis
      by (simp add: h2_def map_tx_push)
  qed
qed

lemma attachAll_succeeds:
  assumes "\<And>k. tm_get h m k = look k"
      and "\<forall>t \<in> set ts. \<exists>c. look (id_t t) = NodeRef c"
      and "\<forall>t \<in> set ts. \<forall>p. parentId t = Some p \<longrightarrow> p \<noteq> [] \<longrightarrow> look p \<noteq> Other True"
  shows "\<exists>h' roots'. attachAll m ts h roots = Inr (h', roots')"
  using assms
proof (induction ts arbitrary: h roots)
  case Nil
  then show ?case by simp
next
  case (Cons t ts)
  from Cons.prems(2) obtain c where c: "look (id_t t) = NodeRef c" by auto
  have look2: "tm_get (h[q := (h ! q)\<lparr>subItems := s\<rparr>]) m k = look k" for k q s
    using Cons.prems(1)[of k] tm_get_tx[of "h[q := (h ! q)\<lparr>subItems := s\<rparr>]" h m k]
    by (simp add: tx_push)
  have rest: "\<exists>h' roots'. attachAll m ts g rs = Inr (h', roots')"
    if "\<And>k. tm_get g m k = look k" for g rs
    using Cons.IH[OF that] Cons.prems(2,3) by simp
  show ?case
  proof (cases "parentId t")
    case None
    with c Cons.prems(1) rest[OF Cons.prems(1)] show ?thesis by simp
  next
    case (Some p)
    show ?thesis
    proof (cases "p = []")
      case True
      with Some c Cons.prems(1) rest[OF Cons.prems(1)] show ?thesis by simp
    next
      case False
      with Some Cons.prems(3) have nt: "look p \<noteq> Other True" by simp
      show ?thesis
      proof (cases "look p")
        case Undefined
        with Some False c Cons.prems(1) rest[OF Cons.prems(1)] show ?thesis by simp
      next
        case (NodeRef q)
        with Some False c Cons.prems(1) rest[OF look2] show ?thesis by simp
      next
        case (Other b)
        with nt have "\<not> b" by simp
        with Other Some False c Cons.prems(1) rest[OF Cons.prems(1)] show ?thesis by simp
      qed
    qed
  qed
qed

lemma mset_sortByDate: "mset (sortByDate g h refs) = mset refs"
  by (simp add: sortByDate_def)

lemma sortSubItems_shape:
  "length (sortSubItems g rs h) = length h \<and> map tx (sortSubItems g rs h) = map tx h \<and>
   (\<forall>q < length h. mset (subItems (sortSubItems g rs h ! q)) = mset (subItems (h ! q)))"
proof (induction rs arbitrary: h)
  case Nil
  then show ?case by simp
next
  case (Cons r rs)
  define h2 where "h2 = h[r := (h ! r)\<lparr>subItems := sortByDate g h (subItems (h ! r))\<rparr>]"
  have len2: "length h2 = length h" by (simp add: h2_def)
  have tx2: "map tx h2 = map tx h" by (simp add: h2_def map_tx_push)
  have sub2: "mset (subItems (h2 ! q)) = mset (subItems (h ! q))" if "q < length h" for q
    using that by (cases "q = r") (simp_all add: h2_def mset_sortByDate)
  from Cons.IH[of h2] len2 tx2 sub2 show ?case
    by (simp add: h2_def)
qed

lemma tree_shape:
  assumes "transactionsWithSubItems g ts = Inr (H, R)"
  shows "length H = length ts \<and> map tx H = ts \<and>
         mset R = mset (map (selfRef (resolve ts)) (filter (\<lambda>t. attachTarget (resolve ts) t = None) ts)) \<and>
         (\<forall>q < length ts. mset (subItems (H ! q)) =
            mset (map (selfRef (resolve ts)) (filter (\<lambda>t. attachTarget (resolve ts) t = Some q) ts)))"
proof -
  have idx: "indexRecords ts [] \<lparr>own = [], proto = None\<rparr> = (freshNodes ts, builtMap ts)"
    using indexRecords_heap[of ts "[]" "\<lparr>own = [], proto = None\<rparr>"]
    by (simp add: builtMap_def prod_eq_iff)
  from assms obtain h' roots where
    att: "attachAll (builtMap ts) ts (freshNodes ts) [] = Inr (h', roots)" and
    R: "R = sortByDate g h' roots" and H: "H = sortSubItems g R h'"
    by (auto simp: transactionsWithSubItems_def idx Let_def split: sum.splits)
  have look: "tm_get (freshNodes ts) (builtMap ts) k = resolve ts k" for k
    by (simp add: resolve_alt)
  have bound: "resolve ts k = NodeRef q \<Longrightarrow> q < length (freshNodes ts)" for k q
    using resolve_sound[of ts k q] by (simp add: freshNodes_def)
  from attachAll_shape[OF look bound att]
  have sh: "length h' = length ts" "map tx h' = ts"
    "roots = map (selfRef (resolve ts)) (filter (\<lambda>t. attachTarget (resolve ts) t = None) ts)"
    "\<forall>q < length ts. subItems (h' ! q) =
        map (selfRef (resolve ts)) (filter (\<lambda>t. attachTarget (resolve ts) t = Some q) ts)"
    by (simp_all add: freshNodes_def comp_def)
  from sortSubItems_shape[of g R h'] sh H R show ?thesis
    by (simp add: mset_sortByDate)
qed

lemma tree_succeeds:
  assumes "\<forall>t \<in> set ts. \<forall>p. parentId t = Some p \<longrightarrow> p \<noteq> [] \<longrightarrow> resolve ts p \<noteq> Other True"
  shows "\<exists>H R. transactionsWithSubItems g ts = Inr (H, R)"
proof -
  have idx: "indexRecords ts [] \<lparr>own = [], proto = None\<rparr> = (freshNodes ts, builtMap ts)"
    using indexRecords_heap[of ts "[]" "\<lparr>own = [], proto = None\<rparr>"]
    by (simp add: builtMap_def prod_eq_iff)
  have look: "tm_get (freshNodes ts) (builtMap ts) k = resolve ts k" for k
    by (simp add: resolve_alt)
  have self: "\<forall>t \<in> set ts. \<exists>c. resolve ts (id_t t) = NodeRef c"
    using resolve_complete by blast
  from attachAll_succeeds[OF look self assms, of "[]"] show ?thesis
    by (auto simp: transactionsWithSubItems_def idx Let_def)
qed

subsection \<open>Tree builder: records with unique ids\<close>

lemma plainNames_succeeds:
  assumes "plainNames ts"
  shows "\<exists>H R. transactionsWithSubItems g ts = Inr (H, R)"
proof (rule tree_succeeds, intro ballI allI impI)
  fix t p assume t: "t \<in> set ts" and p: "parentId t = Some p" "p \<noteq> []"
  show "resolve ts p \<noteq> Other True"
  proof (cases "p \<in> id_t ` set ts")
    case True
    then obtain r where "resolve ts p = NodeRef r" using resolve_complete by blast
    then show ?thesis by simp
  next
    case False
    from assms have np: "''__proto__'' \<notin> id_t ` set ts" by (simp add: plainNames_def)
    from assms t p False have "\<not> inheritedName p"
      by (auto simp: plainNames_def split: option.splits)
    with resolve_missing[OF np False] show ?thesis by (simp add: inheritedName_def)
  qed
qed

lemma selfRef_distinct:
  "distinct (map id_t ts) \<Longrightarrow> k < length ts \<Longrightarrow> selfRef (resolve ts) (ts ! k) = k"
  by (simp add: selfRef_def resolve_distinct)

lemma attachTarget_Some_iff:
  assumes "distinct (map id_t ts)" and "q < length ts"
  shows "attachTarget (resolve ts) t = Some q \<longleftrightarrow>
           parentId t = Some (id_t (ts ! q)) \<and> id_t (ts ! q) \<noteq> []"
proof
  assume "attachTarget (resolve ts) t = Some q"
  then obtain p where p: "parentId t = Some p" "p \<noteq> []" "resolve ts p = NodeRef q"
    by (auto simp: attachTarget_def split: option.splits if_splits jsval.splits)
  from resolve_sound[OF p(3)] p show "parentId t = Some (id_t (ts ! q)) \<and> id_t (ts ! q) \<noteq> []"
    by simp
next
  assume "parentId t = Some (id_t (ts ! q)) \<and> id_t (ts ! q) \<noteq> []"
  with resolve_distinct[OF assms] show "attachTarget (resolve ts) t = Some q"
    by (simp add: attachTarget_def)
qed


lemma attachTarget_dangling:
  "parentId t = Some p \<Longrightarrow> p \<notin> id_t ` set ts \<Longrightarrow> attachTarget (resolve ts) t = None"
proof (cases "attachTarget (resolve ts) t")
  case (Some q)
  assume "parentId t = Some p" "p \<notin> id_t ` set ts"
  with Some have "resolve ts p = NodeRef q"
    by (auto simp: attachTarget_def split: option.splits if_splits jsval.splits)
  from resolve_sound[OF this] have "q < length ts" "id_t (ts ! q) = p" by simp_all
  then have "p \<in> id_t ` set ts" by (metis imageI nth_mem)
  with \<open>p \<notin> id_t ` set ts\<close> show ?thesis by simp
qed simp

lemma map_selfRef_filter:
  assumes "distinct (map id_t ts)"
  shows "map (selfRef (resolve ts)) (filter P ts) = filter (\<lambda>k. P (ts ! k)) [0..<length ts]"
proof -
  have "filter P ts = filter P (map (\<lambda>k. ts ! k) [0..<length ts])"
    by (simp add: map_nth)
  also have "\<dots> = map (\<lambda>k. ts ! k) (filter (\<lambda>k. P (ts ! k)) [0..<length ts])"
    by (simp add: filter_map comp_def)
  finally have "map (selfRef (resolve ts)) (filter P ts)
      = map (\<lambda>k. selfRef (resolve ts) (ts ! k)) (filter (\<lambda>k. P (ts ! k)) [0..<length ts])"
    by (simp add: comp_def)
  also have "\<dots> = filter (\<lambda>k. P (ts ! k)) [0..<length ts]"
    using assms by (intro map_idI) (simp add: selfRef_distinct)
  finally show ?thesis .
qed

lemma tree_shape_distinct:
  assumes "distinct (map id_t ts)" and "transactionsWithSubItems g ts = Inr (H, R)"
  shows "length H = length ts" and "map tx H = ts"
    and "mset R = mset (filter (\<lambda>k. attachTarget (resolve ts) (ts ! k) = None) [0..<length ts])"
    and "q < length ts \<Longrightarrow>
           mset (subItems (H ! q)) =
             mset (filter (\<lambda>k. attachTarget (resolve ts) (ts ! k) = Some q) [0..<length ts])"
  using tree_shape[OF assms(2)] map_selfRef_filter[OF assms(1)] by simp_all

lemma node_tx:
  assumes "distinct (map id_t ts)" and "transactionsWithSubItems g ts = Inr (H, R)" and "k < length ts"
  shows "tx (H ! k) = ts ! k"
  using tree_shape_distinct(1,2)[OF assms(1,2)] assms(3) by (metis nth_map)

lemma node_subItems:
  assumes "distinct (map id_t ts)" and "transactionsWithSubItems g ts = Inr (H, R)" and "q < length ts"
  shows "set (subItems (H ! q)) =
           {k. k < length ts \<and> parentId (ts ! k) = Some (id_t (ts ! q)) \<and> id_t (ts ! q) \<noteq> []}"
proof -
  have "set (subItems (H ! q)) = set_mset (mset (subItems (H ! q)))" by simp
  also have "\<dots> = set (filter (\<lambda>k. attachTarget (resolve ts) (ts ! k) = Some q) [0..<length ts])"
    by (simp only: tree_shape_distinct(4)[OF assms] set_mset_mset)
  also have "\<dots> = {k. k < length ts \<and> parentId (ts ! k) = Some (id_t (ts ! q)) \<and> id_t (ts ! q) \<noteq> []}"
    using attachTarget_Some_iff[OF assms(1,3)] by auto
  finally show ?thesis .
qed

lemma roots_set:
  assumes "distinct (map id_t ts)" and "transactionsWithSubItems g ts = Inr (H, R)"
  shows "set R = {k. k < length ts \<and> attachTarget (resolve ts) (ts ! k) = None}"
proof -
  have "set R = set_mset (mset R)" by simp
  also have "\<dots> = set (filter (\<lambda>k. attachTarget (resolve ts) (ts ! k) = None) [0..<length ts])"
    by (simp only: tree_shape_distinct(3)[OF assms] set_mset_mset)
  finally show ?thesis by auto
qed

lemma children_as_indices:
  "mset (map (\<lambda>k. ts ! k) (filter (\<lambda>k. P (ts ! k)) [0..<length ts])) = mset (filter P ts)"
proof -
  have "map (\<lambda>k. ts ! k) (filter (\<lambda>k. P (ts ! k)) [0..<length ts])
          = filter P (map (\<lambda>k. ts ! k) [0..<length ts])"
    by (simp add: filter_map comp_def)
  then show ?thesis by (simp add: map_nth)
qed

text \<open>
  Claim C8, amended. In a list with unique ids, a record whose \<open>parentId\<close> matches no
  record id is a root: the builder returns, and the record appears in the root sequence
  with its fields unchanged and with exactly the records that name it as their parent as
  its \<open>subItems\<close> (none when no record names it). The statement leaves out the lists in
  which an id is \<^verbatim>\<open>__proto__\<close> or a dangling \<open>parentId\<close> is a name that every object inherits.
\<close>

theorem orphan_is_root:
  assumes "distinct (map id_t ts)" and "plainNames ts" and "t \<in> set ts"
      and "parentId t = Some p" and "p \<notin> set (map id_t ts)"
  shows "\<exists>H R k. transactionsWithSubItems getTime ts = Inr (H, R) \<and> k \<in> set R \<and>
           tx (H ! k) = t \<and>
           mset (map (\<lambda>j. tx (H ! j)) (subItems (H ! k)))
             = mset (if id_t t = [] then [] else children ts (id_t t))"
proof -
  from plainNames_succeeds[OF assms(2)] obtain H R
    where tree: "transactionsWithSubItems getTime ts = Inr (H, R)" by blast
  from assms(3) obtain k where k: "k < length ts" "ts ! k = t"
    by (auto simp: in_set_conv_nth)
  have "attachTarget (resolve ts) (ts ! k) = None"
    using attachTarget_dangling[of t p ts] assms(4,5) k by simp
  with k have root: "k \<in> set R"
    by (simp add: roots_set[OF assms(1) tree])
  have node: "tx (H ! k) = t"
    using node_tx[OF assms(1) tree k(1)] k by simp
  have txs: "map (\<lambda>j. tx (H ! j)) xs = map (\<lambda>j. ts ! j) xs" if "set xs \<subseteq> {..<length ts}" for xs
    using that node_tx[OF assms(1) tree] by (intro map_cong) auto
  define kids where "kids = filter (\<lambda>j. attachTarget (resolve ts) (ts ! j) = Some k) [0..<length ts]"
  have "set kids \<subseteq> {..<length ts}" by (auto simp: kids_def)
  from txs[OF this] have kids_tx: "map (\<lambda>j. tx (H ! j)) kids = map (\<lambda>j. ts ! j) kids" .
  have "mset (map (\<lambda>j. tx (H ! j)) (subItems (H ! k)))
          = image_mset (\<lambda>j. tx (H ! j)) (mset (subItems (H ! k)))"
    by simp
  also have "\<dots> = image_mset (\<lambda>j. tx (H ! j)) (mset kids)"
    by (simp only: tree_shape_distinct(4)[OF assms(1) tree k(1)] kids_def)
  also have "\<dots> = mset (map (\<lambda>j. tx (H ! j)) kids)"
    by (simp only: mset_map)
  also have "\<dots> = mset (map (\<lambda>j. ts ! j) kids)"
    by (simp only: kids_tx)
  also have "\<dots> = mset (filter (\<lambda>c. attachTarget (resolve ts) c = Some k) ts)"
    unfolding kids_def by (rule children_as_indices)
  also have "\<dots> = mset (if id_t t = [] then [] else children ts (id_t t))"
    using attachTarget_Some_iff[OF assms(1) k(1)] k(2)
    by (auto simp: children_def intro!: arg_cong[where f=mset] filter_cong)
  finally show ?thesis using tree root node by blast
qed

subsection \<open>Tree builder: orphans\<close>

lemmas tree_eval =
  transactionsWithSubItems_def tm_set_def tm_get_def sortByDate_def getTime_example_def
  objectPrototypeKeys_def mk_def

text \<open>
  A dangling \<open>parentId\<close> that happens to be a name inherited from \<^verbatim>\<open>Object.prototype\<close> reads
  a truthy value that has no \<^verbatim>\<open>subItems\<close>: the push throws.
\<close>

lemma inherited_name_throws:
  "transactionsWithSubItems getTime
     [mk ''trans1'' 7 ''2024-01-05T00:00:00.000Z'' EXPENSE ''Lazer'' (Some ''constructor'')]
   = Inl TypeError"
  by (simp add: tree_eval)

text \<open>
  Claim C8 as stated fails for an orphan that other records name as their parent: it is
  a root, but its \<open>subItems\<close> list is not empty.
\<close>

theorem orphan_with_child_counterexample:
  "parentId (orphan_family ! 0) = Some ''trans9'' \<and>
   ''trans9'' \<notin> set (map id_t orphan_family) \<and>
   transactionsWithSubItems getTime_example orphan_family
     = Inr ([\<lparr>tx = orphan_family ! 0, subItems = [1]\<rparr>,
             \<lparr>tx = orphan_family ! 1, subItems = []\<rparr>], [0])"
  by (simp add: tree_eval orphan_family_def)

text \<open>An orphan that no record names: a root with an empty \<open>subItems\<close> list.\<close>

theorem orphan_is_root_witness:
  "distinct (map id_t orphan_ledger) \<and> plainNames orphan_ledger \<and>
   orphan_ledger ! 0 \<in> set orphan_ledger \<and>
   parentId (orphan_ledger ! 0) = Some ''trans1700000000000'' \<and>
   ''trans1700000000000'' \<notin> set (map id_t orphan_ledger) \<and>
   transactionsWithSubItems getTime_example orphan_ledger
     = Inr ([\<lparr>tx = orphan_ledger ! 0, subItems = []\<rparr>], [0])"
proof -
  have a: "distinct (map id_t orphan_ledger)"
    by (simp add: orphan_ledger_def mk_def)
  have b: "plainNames orphan_ledger"
    by (simp add: plainNames_def inheritedName_def objectPrototypeKeys_def orphan_ledger_def mk_def)
  have c: "orphan_ledger ! 0 \<in> set orphan_ledger"
    by (simp add: orphan_ledger_def)
  have d: "parentId (orphan_ledger ! 0) = Some ''trans1700000000000''"
    by (simp add: orphan_ledger_def mk_def)
  have e: "''trans1700000000000'' \<notin> set (map id_t orphan_ledger)"
    by (simp add: orphan_ledger_def mk_def)
  have f: "transactionsWithSubItems getTime_example orphan_ledger
     = Inr ([\<lparr>tx = orphan_ledger ! 0, subItems = []\<rparr>], [0])"
    by (simp add: tree_eval orphan_ledger_def)
  from orphan_is_root [OF a b c d e, of getTime_example] a b c d e f show ?thesis
    by simp
qed


lemma ledger_example_tree:
  "transactionsWithSubItems getTime_example ledger_example
     = Inr ([\<lparr>tx = ledger_example ! 0, subItems = []\<rparr>,
             \<lparr>tx = ledger_example ! 1, subItems = [3, 2]\<rparr>,
             \<lparr>tx = ledger_example ! 2, subItems = []\<rparr>,
             \<lparr>tx = ledger_example ! 3, subItems = []\<rparr>], [1, 0])"
  by (simp add: tree_eval ledger_example_def)

subsection \<open>Tree builder: every record once\<close>








subsection \<open>Editing a record that has sub-items\<close>

lemma root_parent_dangling:
  assumes "attachTarget (resolve ts) t = None" and "parentId t = Some p" and "p \<noteq> []"
  shows "p \<notin> id_t ` set ts"
proof
  assume "p \<in> id_t ` set ts"
  then obtain r where "resolve ts p = NodeRef r" using resolve_complete by blast
  with assms show False by (simp add: attachTarget_def)
qed

lemma displayed_cases:
  "k \<in> set (displayed (H, R)) \<longleftrightarrow> k \<in> set R \<or> (\<exists>r \<in> set R. k \<in> set (subItems (H ! r)))"
  by (auto simp: displayed_def)

lemma displayed_bound:
  assumes d: "distinct (map id_t ts)" and tree: "transactionsWithSubItems g ts = Inr (H, R)"
      and k: "k \<in> set (displayed (H, R))"
  shows "k < length ts"
proof -
  note rs = roots_set[OF d tree]
  from k consider (root) "k \<in> set R" | (sub) r where "r \<in> set R" "k \<in> set (subItems (H ! r))"
    by (auto simp: displayed_cases)
  then show ?thesis
  proof cases
    case root
    then show ?thesis by (simp add: rs)
  next
    case sub
    from sub(1) have rn: "r < length ts" by (simp add: rs)
    from sub(2) node_subItems[OF d tree rn] show ?thesis by auto
  qed
qed

lemma displayed_safe:
  assumes d: "distinct (map id_t ts)" and tree: "transactionsWithSubItems g ts = Inr (H, R)"
      and k: "k \<in> set (displayed (H, R))" and i: "id_t (ts ! k) \<noteq> []"
  shows "k < length ts"
    and "parentId (ts ! k) = Some p \<Longrightarrow> p \<noteq> [] \<Longrightarrow>
           p \<noteq> id_t (ts ! k) \<and> (\<forall>c \<in> set ts. parentId c = Some (id_t (ts ! k)) \<longrightarrow> id_t c \<noteq> p)"
proof -
  note rs = roots_set[OF d tree]
  from k consider (root) "k \<in> set R" | (sub) r where "r \<in> set R" "k \<in> set (subItems (H ! r))"
    by (auto simp: displayed_cases)
  then have "k < length ts \<and> (parentId (ts ! k) = Some p \<longrightarrow> p \<noteq> [] \<longrightarrow>
           p \<noteq> id_t (ts ! k) \<and> (\<forall>c \<in> set ts. parentId c = Some (id_t (ts ! k)) \<longrightarrow> id_t c \<noteq> p))"
  proof cases
    case root
    then have kn: "k < length ts" and A: "attachTarget (resolve ts) (ts ! k) = None"
      by (simp_all add: rs)
    have "p \<notin> id_t ` set ts" if "parentId (ts ! k) = Some p" "p \<noteq> []"
      using root_parent_dangling[OF A that] .
    with kn show ?thesis by (auto simp: image_iff)
  next
    case sub
    from sub(1) have rn: "r < length ts" and Ar: "attachTarget (resolve ts) (ts ! r) = None"
      by (simp_all add: rs)
    from sub(2) node_subItems[OF d tree rn]
    have kn: "k < length ts" and par: "parentId (ts ! k) = Some (id_t (ts ! r))"
      and rne: "id_t (ts ! r) \<noteq> []"
      by auto
    have Ak: "attachTarget (resolve ts) (ts ! k) = Some r"
      using attachTarget_Some_iff[OF d rn] par rne by simp
    have nochild: "parentId (ts ! r) \<noteq> Some (id_t (ts ! k))"
    proof
      assume "parentId (ts ! r) = Some (id_t (ts ! k))"
      with attachTarget_Some_iff[OF d kn, of "ts ! r"] i Ar show False by simp
    qed
    have rk: "r \<noteq> k" using Ak Ar by auto
    have neq: "id_t (ts ! r) \<noteq> id_t (ts ! k)"
      using d rn kn rk by (simp add: distinct_conv_nth)
    have "id_t c \<noteq> id_t (ts ! r)" if "c \<in> set ts" "parentId c = Some (id_t (ts ! k))" for c
    proof
      assume "id_t c = id_t (ts ! r)"
      with d that(1) rn have "c = ts ! r" by (simp add: id_eq_iff)
      with that(2) nochild show False by simp
    qed
    with kn par neq show ?thesis by auto
  qed
  then show "k < length ts"
    and "parentId (ts ! k) = Some p \<Longrightarrow> p \<noteq> [] \<Longrightarrow>
           p \<noteq> id_t (ts ! k) \<and> (\<forall>c \<in> set ts. parentId c = Some (id_t (ts ! k)) \<longrightarrow> id_t c \<noteq> p)"
    by simp_all
qed

lemma find_map_id:
  assumes "distinct (map id_t ts)" and "e \<in> set ts" and "id_t (g e) = id_t e"
  shows "find (\<lambda>t. id_t t = id_t e) (map (\<lambda>t. if id_t t = id_t e then g t else t) ts) = Some (g e)"
  using assms
proof (induction ts)
  case Nil
  then show ?case by simp
next
  case (Cons a ts)
  show ?case
  proof (cases "id_t a = id_t e")
    case True
    with Cons.prems have "a = e" by (auto simp: image_iff)
    with Cons.prems(3) show ?thesis by simp
  next
    case False
    with Cons show ?thesis by auto
  qed
qed

lemma find_map_keep:
  assumes "find P xs = Some x" and "\<And>y. P (h y) = P y" and "h x = x"
  shows "find P (map h xs) = Some x"
  using assms by (induction xs) (auto split: if_splits)

lemma node_has_subItems:
  assumes "distinct (map id_t ts)" and "transactionsWithSubItems g ts = Inr (H, R)"
      and "k < length ts" and "id_t (ts ! k) \<noteq> []"
  shows "subItems (H ! k) \<noteq> [] \<longleftrightarrow> children ts (id_t (ts ! k)) \<noteq> []"
proof -
  have "subItems (H ! k) \<noteq> [] \<longleftrightarrow> set (subItems (H ! k)) \<noteq> {}" by simp
  also have "\<dots> \<longleftrightarrow> (\<exists>j < length ts. parentId (ts ! j) = Some (id_t (ts ! k)))"
    using node_subItems[OF assms(1,2,3)] assms(4) by auto
  also have "\<dots> \<longleftrightarrow> (\<exists>c \<in> set ts. parentId c = Some (id_t (ts ! k)))"
    by (metis in_set_conv_nth)
  also have "\<dots> \<longleftrightarrow> children ts (id_t (ts ! k)) \<noteq> []"
    by (simp add: children_def filter_empty_conv)
  finally show ?thesis .
qed

text \<open>What an accepted submission hands to the save when a node is being edited.\<close>

lemma handleSubmit_edit:
  assumes "handleSubmit toISOString (Some e) None f = Inr (Some d)"
  shows "d_amount d = (if subItems e \<noteq> [] then amount (tx e) else (case f_amount f of Num a \<Rightarrow> a | Blank \<Rightarrow> 0))"
    and "d_parentId d = (if truthy (parentId (tx e)) then parentId (tx e) else None)"
  using assms
  by (auto simp: handleSubmit_def Let_def split: amount_input.splits if_splits option.splits)

lemma children_edit:
  assumes "distinct (map id_t ts)" and "e \<in> set ts" and "parentId e \<noteq> Some (id_t e)"
      and "parentId (g e) \<noteq> Some (id_t e)"
  shows "children (map (\<lambda>t. if id_t t = id_t e then g t else t) ts) (id_t e) = children ts (id_t e)"
proof -
  let ?h = "\<lambda>t. if id_t t = id_t e then g t else t"
  have eq: "id_t t = id_t e \<longleftrightarrow> t = e" if "t \<in> set ts" for t
    using assms(1,2) that by (simp add: id_eq_iff)
  have "children (map ?h ts) (id_t e) = map ?h (filter (\<lambda>t. parentId (?h t) = Some (id_t e)) ts)"
    by (simp add: children_def filter_map comp_def)
  also have "filter (\<lambda>t. parentId (?h t) = Some (id_t e)) ts = filter (\<lambda>t. parentId t = Some (id_t e)) ts"
    using assms(3,4) eq by (intro filter_cong) auto
  also have "map ?h (filter (\<lambda>t. parentId t = Some (id_t e)) ts) = filter (\<lambda>t. parentId t = Some (id_t e)) ts"
    using assms(3) eq by (intro map_idI) auto
  finally show ?thesis by (simp add: children_def)
qed

lemma children_rederive:
  assumes "\<forall>c \<in> set ts. parentId c = Some i \<longrightarrow> id_t c \<noteq> p"
  shows "children (rederive p ts) i = children ts i"
proof -
  let ?h = "\<lambda>t. if id_t t = p then t\<lparr>amount := sum_list (map amount (children ts p))\<rparr> else t"
  have "children (rederive p ts) i = map ?h (filter (\<lambda>t. parentId (?h t) = Some i) ts)"
    by (simp add: rederive_alt children_def filter_map comp_def)
  also have "filter (\<lambda>t. parentId (?h t) = Some i) ts = filter (\<lambda>t. parentId t = Some i) ts"
    by (intro filter_cong) auto
  also have "map ?h (filter (\<lambda>t. parentId t = Some i) ts) = filter (\<lambda>t. parentId t = Some i) ts"
    using assms by (intro map_idI) auto
  finally show ?thesis by (simp add: children_def)
qed

text \<open>
  Claim C2. Let the record set have unique ids, and let a node shown by the transactions
  page, whose record has at least one sub-item, be edited through the form. Whatever the
  form supplies, the record keeps the amount it had, and the sum of its sub-items'
  amounts is unchanged: the amount derived before the update is the amount after it.
\<close>

theorem parent_amount_kept:
  assumes "uniqueIds ts"
      and "transactionsWithSubItems getTime ts = Inr (H, R)"
      and "k \<in> set (displayed (H, R))"
      and "children ts (id_t (ts ! k)) \<noteq> []"
  shows "\<exists>r'. find (\<lambda>t. id_t t = id_t (ts ! k)) (saveViaModal toISOString (Some (H ! k)) None now f ts) = Some r' \<and>
           amount r' = amount (ts ! k) \<and>
           sum_list (map amount (children (saveViaModal toISOString (Some (H ! k)) None now f ts) (id_t (ts ! k))))
             = sum_list (map amount (children ts (id_t (ts ! k)))) \<and>
           (amount (ts ! k) = sum_list (map amount (children ts (id_t (ts ! k)))) \<longrightarrow>
            amount r' = sum_list (map amount
              (children (saveViaModal toISOString (Some (H ! k)) None now f ts) (id_t (ts ! k)))))"
proof -
  from assms(1) have d: "distinct (map id_t ts)" and ne: "[] \<notin> id_t ` set ts"
    by (simp_all add: uniqueIds_def)
  define e where "e = ts ! k"
  define i where "i = id_t e"
  have kn: "k < length ts" using displayed_bound[OF d assms(2,3)] .
  then have e: "e \<in> set ts" by (simp add: e_def)
  with ne have i: "i \<noteq> []" unfolding i_def by (metis imageI)
  have node: "tx (H ! k) = e" using node_tx[OF d assms(2) kn] by (simp add: e_def)
  have subs: "subItems (H ! k) \<noteq> []"
    using node_has_subItems[OF d assms(2) kn] i assms(4) by (simp add: e_def i_def)
  have found: "find (\<lambda>t. id_t t = i) ts = Some e"
    unfolding i_def using d e by (rule find_id)
  have safe': "p \<noteq> i \<and> (\<forall>c \<in> set ts. parentId c = Some i \<longrightarrow> id_t c \<noteq> p)"
    if "parentId e = Some p" "p \<noteq> []" for p
    using displayed_safe(2)[OF d assms(2,3), of p] that i by (simp add: e_def i_def)
  have notself: "parentId e \<noteq> Some i"
    using safe'[of i] i by auto
  let ?res = "saveViaModal toISOString (Some (H ! k)) None now f ts"
  have goal: "\<exists>r'. find (\<lambda>t. id_t t = i) ?res = Some r' \<and> amount r' = amount e \<and>
                children ?res i = children ts i"
  proof (cases "handleSubmit toISOString (Some (H ! k)) None f")
    case (Inl err)
    then have "?res = ts" by (simp add: saveViaModal_def)
    with found show ?thesis by simp
  next
    case (Inr od)
    show ?thesis
    proof (cases od)
      case None
      with Inr have "?res = ts" by (simp add: saveViaModal_def)
      with found show ?thesis by simp
    next
      case (Some d)
      with Inr have sub: "handleSubmit toISOString (Some (H ! k)) None f = Inr (Some d)" by simp
      from handleSubmit_edit[OF sub] subs node
      have am: "d_amount d = amount e"
        and par: "d_parentId d = (if truthy (parentId e) then parentId e else None)"
        by simp_all
      define ts1 where "ts1 = map (\<lambda>t. if id_t t = i then spread t d else t) ts"
      have f1: "find (\<lambda>t. id_t t = i) ts1 = Some (spread e d)"
        unfolding ts1_def i_def using d e by (rule find_map_id) (simp add: spread_def)
      have pe: "parentId (spread e d) \<noteq> Some i"
        using par notself by (simp add: spread_def)
      have c1: "children ts1 i = children ts i"
        unfolding ts1_def i_def
        using d e notself pe by (intro children_edit) (simp_all add: i_def)
      have a1: "amount (spread e d) = amount e" using am by (simp add: spread_def)
      have res: "?res = (case d_parentId d of None \<Rightarrow> ts1
                        | Some p \<Rightarrow> if p = [] then ts1 else rederive p ts1)"
        unfolding ts1_def i_def
        using sub node by (simp add: saveViaModal_def handleSaveTransaction_def Let_def)
      show ?thesis
      proof (cases "truthy (parentId e)")
        case False
        with par res have "?res = ts1" by simp
        with f1 a1 c1 show ?thesis by simp
      next
        case True
        then obtain p where p: "parentId e = Some p" "p \<noteq> []"
          by (auto simp: truthy_def split: option.splits)
        with par True res have r: "?res = rederive p ts1" by simp
        from safe'[OF p] have pi: "p \<noteq> i"
          and nc: "\<forall>c \<in> set ts. parentId c = Some i \<longrightarrow> id_t c \<noteq> p" by simp_all
        have nc1: "\<forall>c \<in> set ts1. parentId c = Some i \<longrightarrow> id_t c \<noteq> p"
        proof (intro ballI impI)
          fix c assume "c \<in> set ts1" "parentId c = Some i"
          then have "c \<in> set (children ts1 i)" by (simp add: children_def)
          with c1 have "c \<in> set ts" "parentId c = Some i" by (simp_all add: children_def)
          with nc show "id_t c \<noteq> p" by simp
        qed
        have "find (\<lambda>t. id_t t = i) (rederive p ts1) = Some (spread e d)"
          unfolding rederive_alt
          using f1 pi by (intro find_map_keep) (auto simp: spread_def i_def)
        moreover have "children (rederive p ts1) i = children ts i"
          using children_rederive[OF nc1] c1 by simp
        ultimately show ?thesis using r a1 by simp
      qed
    qed
  qed
  then show ?thesis by (auto simp: e_def i_def)
qed

subsection \<open>Preservation of the ledger invariants\<close>

lemma in_children: "c \<in> set (children ts j) \<longleftrightarrow> c \<in> set ts \<and> parentId c = Some j"
  by (auto simp: children_def)

lemma children_empty_iff: "children ts j = [] \<longleftrightarrow> (\<forall>c \<in> set ts. parentId c \<noteq> Some j)"
  by (simp add: children_def filter_empty_conv)

lemma id_rederive [simp]: "map id_t (rederive p ts) = map id_t ts"
  by (simp add: rederive_alt comp_def if_distrib cong: if_cong)

lemma uniqueIds_rederive: "uniqueIds (rederive p ts) = uniqueIds ts"
  by (simp add: uniqueIds_def)

lemma depth2_mono:
  assumes "depth2 ts"
      and "\<And>t'. t' \<in> set ts' \<Longrightarrow>
             \<exists>t \<in> set ts. id_t t' = id_t t \<and> (parentId t' = parentId t \<or> parentId t' = None)"
  shows "depth2 ts'"
  unfolding depth2_def
proof (intro ballI impI)
  fix c' p' assume c': "c' \<in> set ts'" and p': "p' \<in> set ts'" and ref: "parentId c' = Some (id_t p')"
  from assms(2)[OF c'] ref obtain c where c: "c \<in> set ts" "parentId c = parentId c'" by force
  from assms(2)[OF p'] obtain p where p: "p \<in> set ts" "id_t p' = id_t p"
    "parentId p' = parentId p \<or> parentId p' = None" by blast
  from c p ref have "parentId c = Some (id_t p)" by simp
  with assms(1) c(1) p(1) have "parentId p = None" unfolding depth2_def by blast
  with p(3) show "parentId p' = None" by auto
qed

lemma depth2_rederive: "depth2 ts \<Longrightarrow> depth2 (rederive p ts)"
  by (erule depth2_mono) (auto simp: rederive_alt)

lemma depth2_filter: "depth2 ts \<Longrightarrow> depth2 (filter P ts)"
  by (erule depth2_mono) auto

lemma uniqueIds_filter: "uniqueIds ts \<Longrightarrow> uniqueIds (filter P ts)"
  by (auto simp: uniqueIds_def distinct_map_filter)

text \<open>Re-deriving the amount of \<open>p\<close> restores the invariant when it holds everywhere else.\<close>

lemma parentSum_rederive:
  assumes top: "\<forall>c \<in> set ts. id_t c = p \<longrightarrow> parentId c = None"
      and rest: "\<forall>q \<in> set ts. id_t q \<noteq> p \<longrightarrow> children ts (id_t q) \<noteq> [] \<longrightarrow>
                   amount q = sum_list (map amount (children ts (id_t q)))"
  shows "parentSum (rederive p ts)"
proof -
  have same: "children (rederive p ts) j = children ts j" for j
    using top by (intro children_rederive) auto
  show ?thesis
    unfolding parentSum_def same
  proof (intro ballI impI)
    fix q' assume q': "q' \<in> set (rederive p ts)" and ne: "children ts (id_t q') \<noteq> []"
    from q' obtain q where q: "q \<in> set ts"
      "q' = (if id_t q = p then q\<lparr>amount := sum_list (map amount (children ts p))\<rparr> else q)"
      by (auto simp: rederive_alt)
    show "amount q' = sum_list (map amount (children ts (id_t q')))"
    proof (cases "id_t q = p")
      case True
      with q show ?thesis by simp
    next
      case False
      with q ne rest show ?thesis by simp
    qed
  qed
qed

subsection \<open>Delete\<close>

lemma delete_top:
  assumes "distinct (map id_t (ts :: Transaction list))" and "r \<in> set ts" and "\<not> truthy (parentId r)"
  shows "confirmDeleteTransaction (id_t r) ts
           = filter (\<lambda>t. t \<noteq> r \<and> parentId t \<noteq> Some (id_t r)) ts"
  using assms delete_filter[OF assms(1,2)] find_id[OF assms(1,2)]
  by (auto simp: confirmDeleteTransaction_def truthy_def Let_def split: option.splits)

lemma delete_sub:
  assumes "distinct (map id_t (ts :: Transaction list))" and "depth2 ts" and "r \<in> set ts"
      and "parentId r = Some p" and "p \<noteq> []"
  shows "confirmDeleteTransaction (id_t r) ts = rederive p (filter (\<lambda>t. t \<noteq> r) ts)"
proof -
  have nochild: "\<forall>t \<in> set ts. parentId t \<noteq> Some (id_t r)"
    using assms(2,3,4) unfolding depth2_def by auto
  then have "filter (\<lambda>t. t \<noteq> r \<and> parentId t \<noteq> Some (id_t r)) ts = filter (\<lambda>t. t \<noteq> r) ts"
    by (auto intro: filter_cong)
  with delete_filter[OF assms(1,3)] find_id[OF assms(1,3)] assms(4,5) show ?thesis
    by (simp add: confirmDeleteTransaction_def Let_def)
qed

lemma delete_valid:
  assumes v: "validLedger ts"
  shows "validLedger (confirmDeleteTransaction i ts)"
proof (cases "i \<in> set (map id_t ts)")
  case False
  then show ?thesis using v by (simp add: confirmDeleteTransaction_def find_id_None)
next
  case True
  then obtain r where r: "r \<in> set ts" "id_t r = i" by auto
  from v have d: "distinct (map id_t ts)" and ne: "[] \<notin> id_t ` set ts"
    and ps: "parentSum ts" and d2: "depth2 ts"
    by (simp_all add: validLedger_def uniqueIds_def)
  from v have u: "uniqueIds ts" by (simp add: validLedger_def)
  show ?thesis
  proof (cases "truthy (parentId r)")
    case False
    let ?ts' = "filter (\<lambda>t. t \<noteq> r \<and> parentId t \<noteq> Some i) ts"
    have res: "confirmDeleteTransaction i ts = ?ts'"
      using delete_top[OF d r(1) False] r(2) by simp
    have same: "children ?ts' (id_t q) = children ts (id_t q)" if q: "q \<in> set ?ts'" for q
    proof -
      have qi: "id_t q \<noteq> i" using q d r by (auto simp: id_eq_iff)
      have qne: "id_t q \<noteq> []" using q ne by (metis filter_is_subset imageI subsetD)
      have "children ?ts' (id_t q) = filter (\<lambda>t. t \<noteq> r \<and> parentId t \<noteq> Some i) (children ts (id_t q))"
        by (simp add: children_def conj_commute)
      also have "\<dots> = children ts (id_t q)"
      proof (rule filter_True, intro ballI)
        fix c assume "c \<in> set (children ts (id_t q))"
        then have c: "parentId c = Some (id_t q)" by (simp add: in_children)
        with False qne have "c \<noteq> r" by (auto simp: truthy_def)
        with c qi show "c \<noteq> r \<and> parentId c \<noteq> Some i" by simp
      qed
      finally show ?thesis .
    qed
    have "parentSum ?ts'"
      unfolding parentSum_def using same ps by (auto simp: parentSum_def)
    with u d2 res show ?thesis
      by (simp add: validLedger_def uniqueIds_filter depth2_filter)
  next
    case True
    then obtain p where p: "parentId r = Some p" "p \<noteq> []"
      by (auto simp: truthy_def split: option.splits)
    let ?ts' = "filter (\<lambda>t. t \<noteq> r) ts"
    have res: "confirmDeleteTransaction i ts = rederive p ?ts'"
      using delete_sub[OF d d2 r(1) p] r(2) by simp
    have top: "\<forall>c \<in> set ?ts'. id_t c = p \<longrightarrow> parentId c = None"
      using d2 r(1) p(1) unfolding depth2_def by auto
    have rest: "\<forall>q \<in> set ?ts'. id_t q \<noteq> p \<longrightarrow> children ?ts' (id_t q) \<noteq> [] \<longrightarrow>
                   amount q = sum_list (map amount (children ?ts' (id_t q)))"
    proof (intro ballI impI)
      fix q assume q: "q \<in> set ?ts'" "id_t q \<noteq> p" "children ?ts' (id_t q) \<noteq> []"
      have "children ?ts' (id_t q) = filter (\<lambda>t. t \<noteq> r) (children ts (id_t q))"
        by (simp add: children_def conj_commute)
      also have "\<dots> = children ts (id_t q)"
        using p(1) q(2) by (intro filter_True) (auto simp: in_children)
      finally have same: "children ?ts' (id_t q) = children ts (id_t q)" .
      with q ps show "amount q = sum_list (map amount (children ?ts' (id_t q)))"
        by (simp add: parentSum_def)
    qed
    from parentSum_rederive[OF top rest] u d2 res show ?thesis
      by (simp add: validLedger_def uniqueIds_rederive uniqueIds_filter depth2_rederive depth2_filter)
  qed
qed

subsection \<open>Create\<close>

lemma handleSubmit_create:
  "handleSubmit toISOString None p f = Inr (Some d) \<Longrightarrow> d_parentId d = p"
  by (auto simp: handleSubmit_def Let_def truthy_def
      split: amount_input.splits if_splits option.splits)

lemma newId_nonempty: "newId now \<noteq> []"
  by (simp add: newId_def)

lemma children_snoc:
  "children (ts @ [n]) j = children ts j @ (if parentId n = Some j then [n] else [])"
  by (simp add: children_def)

lemma same_id:
  "distinct (map id_t ts) \<Longrightarrow> a \<in> set ts \<Longrightarrow> b \<in> set ts \<Longrightarrow> id_t a = i \<Longrightarrow> id_t b = i \<Longrightarrow> a = b"
  by (auto simp: distinct_map inj_on_def)

lemma create_valid:
  assumes v: "validLedger ts" and off: "offered g ts (Create p now f)"
  shows "validLedger (applyOp toISOString ts (Create p now f))"
proof (cases "handleSubmit toISOString None p f")
  case (Inl err)
  with v show ?thesis by (simp add: saveViaModal_def)
next
  case (Inr od)
  show ?thesis
  proof (cases od)
    case None
    with Inr v show ?thesis by (simp add: saveViaModal_def)
  next
    case (Some d)
    with Inr have sub: "handleSubmit toISOString None p f = Inr (Some d)" by simp
    from handleSubmit_create[OF sub] have dp: "d_parentId d = p" .
    from v have d: "distinct (map id_t ts)" and ne: "[] \<notin> id_t ` set ts"
      and ps: "parentSum ts" and d2: "depth2 ts"
      by (simp_all add: validLedger_def uniqueIds_def)
    have idne: "id_t q \<noteq> []" if "q \<in> set ts" for q
      using ne that by (metis imageI)
    define new where "new = newTransaction d now"
    have nid: "id_t new = newId now" and npar: "parentId new = p"
      by (simp_all add: new_def newTransaction_def dp)
    from off have fr: "newId now \<notin> id_t ` set ts" "\<forall>t \<in> set ts. parentId t \<noteq> Some (newId now)"
      by (simp_all add: fresh_def)
    let ?ts1 = "ts @ [new]"
    have u1: "uniqueIds ?ts1"
      using d ne fr(1) newId_nonempty[of now] by (auto simp: uniqueIds_def nid)
    have nochild: "children ts (newId now) = []"
      using fr(2) by (simp add: children_empty_iff)
    have res: "applyOp toISOString ts (Create p now f)
                 = (case p of None \<Rightarrow> ?ts1 | Some q \<Rightarrow> if q = [] then ?ts1 else rederive q ?ts1)"
      unfolding new_def
      using sub dp by (simp add: saveViaModal_def handleSaveTransaction_def Let_def)
    show ?thesis
    proof (cases "truthy p")
      case False
      then have pf: "p = None \<or> p = Some []" by (auto simp: truthy_def split: option.splits)
      with res have r: "applyOp toISOString ts (Create p now f) = ?ts1" by auto
      have nopar: "p \<noteq> Some j" if "j \<noteq> []" for j using pf that by auto
      have d21: "depth2 ?ts1"
        unfolding depth2_def
      proof (intro ballI impI)
        fix c q assume c: "c \<in> set ?ts1" and q: "q \<in> set ?ts1" and ref: "parentId c = Some (id_t q)"
        have qne: "id_t q \<noteq> []" using q idne newId_nonempty[of now] nid by auto
        from c ref nopar[OF qne] npar have cts: "c \<in> set ts" by auto
        with ref fr(2) nid q have "q \<in> set ts" by auto
        with cts ref d2 show "parentId q = None" unfolding depth2_def by blast
      qed
      have "parentSum ?ts1"
        unfolding parentSum_def
      proof (intro ballI impI)
        fix q assume q: "q \<in> set ?ts1" and c: "children ?ts1 (id_t q) \<noteq> []"
        have qne: "id_t q \<noteq> []" using q idne newId_nonempty[of now] nid by auto
        have same: "children ?ts1 (id_t q) = children ts (id_t q)"
          using nopar[OF qne] npar by (simp add: children_snoc)
        with c nochild nid q have "q \<in> set ts" by auto
        with ps c same show "amount q = sum_list (map amount (children ?ts1 (id_t q)))"
          by (simp add: parentSum_def)
      qed
      with u1 d21 r show ?thesis by (simp add: validLedger_def)
    next
      case True
      then obtain pid where pid: "p = Some pid" "pid \<noteq> []"
        by (auto simp: truthy_def split: option.splits)
      with off obtain r0 where r0: "r0 \<in> set ts" "id_t r0 = pid" "parentId r0 = None"
        by (auto simp: list_ex_iff)
      from pid res have r: "applyOp toISOString ts (Create p now f) = rederive pid ?ts1" by simp
      have pn: "pid \<noteq> newId now" using r0(1,2) fr(1) by (metis imageI)
      have d21: "depth2 ?ts1"
        unfolding depth2_def
      proof (intro ballI impI)
        fix c q assume c: "c \<in> set ?ts1" and q: "q \<in> set ?ts1" and ref: "parentId c = Some (id_t q)"
        show "parentId q = None"
        proof (cases "c = new")
          case True
          with ref npar pid have qi: "id_t q = pid" by simp
          with pn nid q have "q \<in> set ts" by auto
          from this qi r0 have "q = r0" by (intro same_id[OF d])
          with r0 show ?thesis by simp
        next
          case False
          with c have cts: "c \<in> set ts" by simp
          with ref fr(2) nid q have "q \<in> set ts" by auto
          with cts ref d2 show ?thesis unfolding depth2_def by blast
        qed
      qed
      have top: "\<forall>c \<in> set ?ts1. id_t c = pid \<longrightarrow> parentId c = None"
      proof (intro ballI impI)
        fix c assume c: "c \<in> set ?ts1" "id_t c = pid"
        with pn nid have "c \<in> set ts" by auto
        from this c(2) r0 have "c = r0" by (intro same_id[OF d])
        with r0 show "parentId c = None" by simp
      qed
      have rest: "\<forall>q \<in> set ?ts1. id_t q \<noteq> pid \<longrightarrow> children ?ts1 (id_t q) \<noteq> [] \<longrightarrow>
                   amount q = sum_list (map amount (children ?ts1 (id_t q)))"
      proof (intro ballI impI)
        fix q assume q: "q \<in> set ?ts1" "id_t q \<noteq> pid" "children ?ts1 (id_t q) \<noteq> []"
        have same: "children ?ts1 (id_t q) = children ts (id_t q)"
          using q(2) npar pid by (simp add: children_snoc)
        with q(3) nochild nid q(1) have "q \<in> set ts" by auto
        with ps q(3) same show "amount q = sum_list (map amount (children ?ts1 (id_t q)))"
          by (simp add: parentSum_def)
      qed
      from parentSum_rederive[OF top rest] u1 d21 r show ?thesis
        by (simp add: validLedger_def uniqueIds_rederive depth2_rederive)
    qed
  qed
qed

subsection \<open>Update\<close>

lemma update_valid:
  assumes v: "validLedger ts" and off: "offered g ts (Update e now f)"
  shows "validLedger (applyOp toISOString ts (Update e now f))"
proof (cases "handleSubmit toISOString (Some e) None f")
  case (Inl err)
  with v show ?thesis by (simp add: saveViaModal_def)
next
  case (Inr od)
  show ?thesis
  proof (cases od)
    case None
    with Inr v show ?thesis by (simp add: saveViaModal_def)
  next
    case (Some d)
    with Inr have sub: "handleSubmit toISOString (Some e) None f = Inr (Some d)" by simp
    from v have dist: "distinct (map id_t ts)" and ne: "[] \<notin> id_t ` set ts"
      and ps: "parentSum ts" and d2: "depth2 ts" and u: "uniqueIds ts"
      by (simp_all add: validLedger_def uniqueIds_def)
    have idne: "id_t q \<noteq> []" if "q \<in> set ts" for q
      using ne that by (metis imageI)
    from off obtain H R where tree: "transactionsWithSubItems g ts = Inr (H, R)" and eH: "e \<in> set H"
      by (auto split: sum.splits)
    from eH obtain k where k: "k < length H" "e = H ! k" by (auto simp: in_set_conv_nth)
    from tree_shape_distinct(1)[OF dist tree] k(1) have kn: "k < length ts" by simp
    define r where "r = ts ! k"
    define i where "i = id_t r"
    have rts: "r \<in> set ts" using kn by (simp add: r_def)
    have ine: "i \<noteq> []" unfolding i_def using rts by (rule idne)
    have node: "tx e = r" using node_tx[OF dist tree kn] k(2) by (simp add: r_def)
    have hs: "subItems e \<noteq> [] \<longleftrightarrow> children ts i \<noteq> []"
      using node_has_subItems[OF dist tree kn] ine k(2) by (simp add: r_def i_def)
    from handleSubmit_edit[OF sub] node
    have am: "children ts i \<noteq> [] \<Longrightarrow> d_amount d = amount r"
      and par: "d_parentId d = (if truthy (parentId r) then parentId r else None)"
      by (simp_all add: hs)
    define h where "h t = (if id_t t = i then spread t d else t)" for t
    define ts1 where "ts1 = map h ts"
    have res: "applyOp toISOString ts (Update e now f)
                 = (case d_parentId d of None \<Rightarrow> ts1
                    | Some p \<Rightarrow> if p = [] then ts1 else rederive p ts1)"
      unfolding ts1_def h_def i_def
      using sub node by (simp add: saveViaModal_def handleSaveTransaction_def Let_def)
    have hid: "id_t (h t) = id_t t" for t by (simp add: h_def spread_def)
    have hfix: "h t = t" if "t \<in> set ts" "t \<noteq> r" for t
    proof -
      from that rts dist have "id_t t \<noteq> i" unfolding i_def by (simp add: id_eq_iff)
      then show ?thesis by (simp add: h_def)
    qed
    have hr: "parentId (h r) = (if truthy (parentId r) then parentId r else None)"
      by (simp add: h_def i_def spread_def par)
    have hpar: "parentId (h t) = Some j \<longleftrightarrow> parentId t = Some j" if "t \<in> set ts" "j \<noteq> []" for t j
    proof (cases "t = r")
      case True
      with hr that(2) show ?thesis by (auto simp: truthy_def)
    next
      case False
      with hfix that(1) show ?thesis by simp
    qed
    have hweak: "parentId (h t) = parentId t \<or> parentId (h t) = None" if "t \<in> set ts" for t
      using hr hfix[OF that] by (cases "t = r") auto
    have u1: "uniqueIds ts1"
      using u by (simp add: uniqueIds_def ts1_def comp_def hid)
    have d21: "depth2 ts1"
      using d2
    proof (rule depth2_mono)
      fix t' assume "t' \<in> set ts1"
      then obtain t where "t \<in> set ts" "t' = h t" by (auto simp: ts1_def)
      with hweak[of t] hid[of t]
      show "\<exists>t \<in> set ts. id_t t' = id_t t \<and> (parentId t' = parentId t \<or> parentId t' = None)"
        by auto
    qed
    have ch1: "children ts1 j = map h (children ts j)" if "j \<noteq> []" for j
    proof -
      have "children ts1 j = map h (filter (\<lambda>t. parentId (h t) = Some j) ts)"
        by (simp add: children_def ts1_def filter_map comp_def)
      also have "filter (\<lambda>t. parentId (h t) = Some j) ts = filter (\<lambda>t. parentId t = Some j) ts"
        using hpar[OF _ that] by (intro filter_cong) auto
      finally show ?thesis by (simp add: children_def)
    qed
    have ch_same: "children ts1 j = children ts j" if "j \<noteq> []" "parentId r \<noteq> Some j" for j
    proof -
      have "map h (children ts j) = children ts j"
        using that(2) hfix by (intro map_idI) (auto simp: in_children)
      with ch1[OF that(1)] show ?thesis by simp
    qed
    show ?thesis
    proof (cases "children ts i = []")
      case False
      then obtain c where "c \<in> set ts" "parentId c = Some i"
        by (auto simp: children_empty_iff)
      with d2 rts have rtop: "parentId r = None" unfolding depth2_def i_def by blast
      with par res have r1: "applyOp toISOString ts (Update e now f) = ts1"
        by (simp add: truthy_def)
      have hamt: "amount (h t) = amount t" if "t \<in> set ts" for t
      proof (cases "t = r")
        case True
        with am[OF False] show ?thesis by (simp add: h_def i_def spread_def)
      next
        case False
        with hfix that show ?thesis by simp
      qed
      have hsum: "sum_list (map (amount \<circ> h) (children ts j)) = sum_list (map amount (children ts j))"
        for j
      proof -
        have "map (\<lambda>t. amount (h t)) (children ts j) = map amount (children ts j)"
          by (rule map_cong) (auto simp: in_children hamt)
        then have "sum_list (map (\<lambda>t. amount (h t)) (children ts j))
                     = sum_list (map amount (children ts j))"
          by (rule arg_cong)
        then show ?thesis by (simp only: comp_def)
      qed
      have "parentSum ts1"
        unfolding parentSum_def
      proof (intro ballI impI)
        fix q1 assume q1: "q1 \<in> set ts1" and c1: "children ts1 (id_t q1) \<noteq> []"
        from q1 obtain q where q: "q \<in> set ts" "q1 = h q" by (auto simp: ts1_def)
        have j: "id_t q \<noteq> []" using q(1) by (rule idne)
        from c1 q(2) have cne: "children ts (id_t q) \<noteq> []"
          by (simp add: hid ch1[OF j])
        with ps q(1) have "amount q = sum_list (map amount (children ts (id_t q)))"
          by (simp add: parentSum_def)
        then show "amount q1 = sum_list (map amount (children ts1 (id_t q1)))"
          by (simp add: q hid ch1[OF j] hamt hsum)
      qed
      with u1 d21 r1 show ?thesis by (simp add: validLedger_def)
    next
      case True
      have keep: "amount q1 = sum_list (map amount (children ts1 (id_t q1)))"
        if q1: "q1 \<in> set ts1" and c1: "children ts1 (id_t q1) \<noteq> []"
          and np: "parentId r \<noteq> Some (id_t q1)" for q1
      proof -
        from q1 obtain q where q: "q \<in> set ts" "q1 = h q" by (auto simp: ts1_def)
        have j: "id_t q \<noteq> []" using q(1) by (rule idne)
        from np q(2) have same: "children ts1 (id_t q) = children ts (id_t q)"
          by (intro ch_same[OF j]) (simp add: hid)
        with c1 q(2) True have "q \<noteq> r" by (auto simp: hid i_def)
        with hfix q have "q1 = q" by simp
        with ps q(1) c1 same show ?thesis by (simp add: parentSum_def)
      qed
      show ?thesis
      proof (cases "truthy (parentId r)")
        case False
        with par res have r1: "applyOp toISOString ts (Update e now f) = ts1" by simp
        have "parentSum ts1"
          unfolding parentSum_def
        proof (intro ballI impI)
          fix q1 assume q1: "q1 \<in> set ts1" and c1: "children ts1 (id_t q1) \<noteq> []"
          from q1 obtain q where q: "q \<in> set ts" "q1 = h q" by (auto simp: ts1_def)
          have "id_t q1 \<noteq> []" using idne[OF q(1)] q(2) by (simp add: hid)
          with False have "parentId r \<noteq> Some (id_t q1)" by (auto simp: truthy_def)
          from keep[OF q1 c1 this] show "amount q1 = sum_list (map amount (children ts1 (id_t q1)))" .
        qed
        with u1 d21 r1 show ?thesis by (simp add: validLedger_def)
      next
        case tr: True
        then obtain p where p: "parentId r = Some p" "p \<noteq> []"
          by (auto simp: truthy_def split: option.splits)
        with par tr res have r1: "applyOp toISOString ts (Update e now f) = rederive p ts1" by simp
        have top: "\<forall>c \<in> set ts1. id_t c = p \<longrightarrow> parentId c = None"
        proof (intro ballI impI)
          fix c1 assume c1: "c1 \<in> set ts1" and c1p: "id_t c1 = p"
          from c1 obtain c where c: "c \<in> set ts" "c1 = h c" unfolding ts1_def by auto
          from c1p c(2) have cp: "id_t c = p" by (simp add: hid)
          from d2 rts c(1) p(1) cp have "parentId c = None" unfolding depth2_def by blast
          with hweak[OF c(1)] c(2) show "parentId c1 = None" by auto
        qed
        have rest: "\<forall>q \<in> set ts1. id_t q \<noteq> p \<longrightarrow> children ts1 (id_t q) \<noteq> [] \<longrightarrow>
                     amount q = sum_list (map amount (children ts1 (id_t q)))"
          using keep p(1) by auto
        from parentSum_rederive[OF top rest] u1 d21 r1 show ?thesis
          by (simp add: validLedger_def uniqueIds_rederive depth2_rederive)
      qed
    qed
  qed
qed

subsection \<open>Sequences\<close>

lemma step_valid:
  "validLedger ts \<Longrightarrow> offered g ts x \<Longrightarrow> validLedger (applyOp toISOString ts x)"
proof (cases x)
  case (Create p now f)
  assume "validLedger ts" "offered g ts x"
  with Create show ?thesis using create_valid by simp
next
  case (Update e now f)
  assume "validLedger ts" "offered g ts x"
  with Update show ?thesis using update_valid by simp
next
  case (Delete i)
  assume "validLedger ts" "offered g ts x"
  with Delete show ?thesis using delete_valid by simp
qed

lemma run_valid:
  "validLedger ts \<Longrightarrow> allOffered g toISOString ts xs \<Longrightarrow>
     \<forall>s \<in> set (run toISOString ts xs). validLedger s"
proof (induction xs arbitrary: ts)
  case Nil
  then show ?case by simp
next
  case (Cons x xs)
  from Cons.prems have "validLedger (applyOp toISOString ts x)"
    using step_valid[of ts g x toISOString] by simp
  with Cons show ?case by simp
qed

text \<open>
  Claim C1, amended. Start from a record set with unique, non-empty ids that satisfies
  the parent-sum invariant and has depth at most 2, and apply operations as the
  transactions page issues them: saves submitted through the form, sub-items added only
  to an existing record without parent, edits of a node of the current tree, fresh
  generated ids, and deletions. Then the record set after each operation satisfies the
  parent-sum invariant.
\<close>

theorem parent_sum_preserved:
  assumes "uniqueIds ts" and "parentSum ts" and "depth2 ts"
      and "allOffered getTime toISOString ts xs"
  shows "\<forall>s \<in> set (run toISOString ts xs). parentSum s"
  using run_valid[of ts getTime toISOString xs] assms
  by (simp add: validLedger_def)

subsection \<open>The invariant along sequences of operations\<close>

lemma newId_examples:
  "newId 1700000000001 = ''trans1700000000001''"
  "newId 1700000000002 = ''trans1700000000002''"
  by (simp_all add: newId_def dec.simps)

lemmas save_eval =
  saveViaModal_def handleSubmit_def handleSaveTransaction_def confirmDeleteTransaction_def
  rederive_def sumAmounts_def newTransaction_def spread_def truthy_def
  form_example_def toISO_example_def

text \<open>
  Claim C1 as stated fails. In a ledger of depth 3 that satisfies the invariant, deleting
  the innermost record re-derives its parent to 0 and leaves the grandparent at 10. And
  \<^verbatim>\<open>handleSaveTransaction\<close> by itself writes whatever amount it is handed: called with the
  amount 100 for the parent of the example ledger, it leaves a parent of 100 over
  sub-items of 30 and 45.
\<close>

theorem parent_sum_broken:
  "parentSum deep_ledger \<and>
   applyOp toISO_example deep_ledger (Delete ''trans3'')
     = [deep_ledger ! 0, (deep_ledger ! 1)\<lparr>amount := 0\<rparr>] \<and>
   \<not> parentSum (applyOp toISO_example deep_ledger (Delete ''trans3'')) \<and>
   parentSum ledger_example \<and> depth2 ledger_example \<and>
   map amount (handleSaveTransaction (Some (ledger_tree ! 1)) 1700000000003 edited_amount
                 ledger_example) = [1000, 100, 30, 45] \<and>
   \<not> parentSum (handleSaveTransaction (Some (ledger_tree ! 1)) 1700000000003 edited_amount
                   ledger_example)"
  by (simp add: parentSum_def depth2_def children_def save_eval deep_ledger_def
      ledger_example_def ledger_tree_def edited_amount_def mk_def)

lemma run_example:
  "map (map amount) (run toISO_example base_ledger ops_example)
     = [[1000, 30, 30], [1000, 75, 30, 45], [1000, 75, 30, 45], [1000, 45, 45]]"
  by (simp add: ops_example_def base_ledger_def parent_node_def save_eval newId_examples mk_def)

lemma offered_example: "allOffered getTime_example toISO_example base_ledger ops_example"
  by (simp add: ops_example_def base_ledger_def parent_node_def save_eval newId_examples mk_def
      fresh_def tree_eval)

text \<open>
  The scenario of the specification: two sub-items of 30 and 45 are created under an
  empty parent, the parent is edited with the amount 999, and the first sub-item is
  deleted. The parent's amount is 30, 75, 75 and 45.
\<close>

theorem parent_sum_preserved_witness:
  "uniqueIds base_ledger \<and> parentSum base_ledger \<and> depth2 base_ledger \<and>
   allOffered getTime_example toISO_example base_ledger ops_example \<and>
   list_all parentSum (run toISO_example base_ledger ops_example) \<and>
   map (map amount) (run toISO_example base_ledger ops_example)
     = [[1000, 30, 30], [1000, 75, 30, 45], [1000, 75, 30, 45], [1000, 45, 45]]"
proof -
  have a: "uniqueIds base_ledger"
    by (simp add: uniqueIds_def base_ledger_def mk_def)
  have b: "parentSum base_ledger"
    by (simp add: parentSum_def children_def base_ledger_def mk_def)
  have c: "depth2 base_ledger"
    by (simp add: depth2_def base_ledger_def mk_def)
  from parent_sum_preserved [OF a b c offered_example] a b c offered_example run_example
  show ?thesis by (simp add: list_all_iff)
qed

text \<open>Editing the parent of the example ledger with the amount 999 leaves it at 75.\<close>

theorem parent_amount_kept_witness:
  "uniqueIds ledger_example \<and>
   transactionsWithSubItems getTime_example ledger_example = Inr (ledger_tree, [1, 0]) \<and>
   1 \<in> set (displayed (ledger_tree, [1, 0])) \<and>
   children ledger_example (id_t (ledger_example ! 1)) \<noteq> [] \<and>
   map amount (saveViaModal toISO_example (Some (ledger_tree ! 1)) None 1700000000003
                 (form_example ''groceries'' (Num 999) ''2024-03-01'') ledger_example)
     = [1000, 75, 30, 45]"
proof -
  have a: "uniqueIds ledger_example"
    by (simp add: uniqueIds_def ledger_example_def mk_def)
  have b: "transactionsWithSubItems getTime_example ledger_example = Inr (ledger_tree, [1, 0])"
    by (simp add: ledger_tree_def ledger_example_tree)
  have c: "1 \<in> set (displayed (ledger_tree, [1, 0]))"
    by (simp add: displayed_def)
  have d: "children ledger_example (id_t (ledger_example ! 1)) \<noteq> []"
    by (simp add: children_def ledger_example_def mk_def)
  have e: "map amount (saveViaModal toISO_example (Some (ledger_tree ! 1)) None 1700000000003
                 (form_example ''groceries'' (Num 999) ''2024-03-01'') ledger_example)
     = [1000, 75, 30, 45]"
    by (simp add: ledger_tree_def ledger_example_def save_eval mk_def)
  from parent_amount_kept [OF a b c d, of toISO_example 1700000000003
      "form_example ''groceries'' (Num 999) ''2024-03-01''"] a b c d e
  show ?thesis by simp
qed

end
